theory Spec2Isabelle
  imports Main "HOL-Library.Multiset"
begin

section \<open>Phase timeouts of a request (source/utils/timed-out.ts)\<close>

text \<open>
  The module exports one function, \<open>timedOut (request, delays, options)\<close>, which installs
  listeners on a request and arms timers through \<open>addTimeout\<close>. It is written against
  three things that live outside it: Node's event emitter (\<open>on\<close>, \<open>once\<close>,
  \<open>removeListener\<close>, \<open>emit\<close>), Node's timers (\<open>setTimeout\<close>, \<open>setImmediate\<close> and
  their clear functions) and the helper module \<open>./unhandle\<close>.

  The embedding keeps the closures of the source as constructors of a datatype, the
  arrays \<open>cancelers\<close> and \<open>handlers\<close> as lists, and every object that is mutated as a
  field of one state record. Time is not measured: the scheduler is an environment that
  chooses which pending callback or signal comes next, one turn at a time.
\<close>

subsection \<open>Data\<close>

text \<open>The interface \<open>Delays\<close>: every field is a number or undefined.\<close>

record delays =
  lookup :: "nat option"
  connect :: "nat option"
  secureConnect :: "nat option"
  socket :: "nat option"
  response :: "nat option"
  send :: "nat option"
  request :: "nat option"

text \<open>The interface \<open>TimedOutOptions\<close>.\<close>

record options =
  host :: "string option"
  hostname :: "string option"
  protocol :: "string option"

text \<open>
  Errors seen on the request's error channel: the class \<open>TimeoutError\<close> of this module,
  built from a threshold and an event name, and any other error, of which the module reads
  the message only (the code is kept beside it, as Node's system errors carry one).
\<close>

datatype err =
    TimeoutError "nat option" string
  | OtherError string "string option"

fun string_of_nat :: "nat \<Rightarrow> string" where
  "string_of_nat n =
     (if n < 10 then [char_of (48 + n)]
      else string_of_nat (n div 10) @ [char_of (48 + n mod 10)])"

fun string_of_number :: "nat option \<Rightarrow> string" where
  "string_of_number None = ''undefined''"
| "string_of_number (Some n) = string_of_nat n"

fun message :: "err \<Rightarrow> string" where
  "message (TimeoutError threshold event) =
     ''Timeout awaiting '' @ [CHR 0x27] @ event @ [CHR 0x27] @ '' for ''
       @ string_of_number threshold @ ''ms''"
| "message (OtherError m c) = m"

fun code :: "err \<Rightarrow> string option" where
  "code (TimeoutError threshold event) = Some ''ETIMEDOUT''"
| "code (OtherError m c) = c"

fun name :: "err \<Rightarrow> string" where
  "name (TimeoutError threshold event) = ''TimeoutError''"
| "name (OtherError m c) = ''Error''"

text \<open>
  What the module reads of a \<open>net.Socket\<close>: its identity, \<open>socket.connecting\<close> and
  \<open>socket.address().address\<close> (\<open>None\<close> is undefined).
\<close>

record sock =
  sid :: nat
  connecting :: bool
  address :: "string option"

text \<open>The objects that emit, the event names used by the module, and the signals with
  their arguments. A lookup signal carries \<open>None\<close> for \<open>null\<close>, an error otherwise.\<close>

datatype origin = ORequest | OSocket nat | OResponse nat

datatype evname =
    EvError | EvResponse | EvSocket | EvUploadComplete | EvTimeout
  | EvLookup | EvConnect | EvSecureConnect | EvEnd

datatype signal =
    ReqError err
  | ReqResponse nat
  | ReqSocket sock
  | ReqUploadComplete
  | ReqTimeout
  | SockLookup nat "err option"
  | SockConnect nat
  | SockSecureConnect nat
  | RespEnd nat

fun origin_of :: "signal \<Rightarrow> origin" where
  "origin_of (ReqError e) = ORequest"
| "origin_of (ReqResponse r) = ORequest"
| "origin_of (ReqSocket k) = ORequest"
| "origin_of ReqUploadComplete = ORequest"
| "origin_of ReqTimeout = ORequest"
| "origin_of (SockLookup k r) = OSocket k"
| "origin_of (SockConnect k) = OSocket k"
| "origin_of (SockSecureConnect k) = OSocket k"
| "origin_of (RespEnd r) = OResponse r"

fun evname_of :: "signal \<Rightarrow> evname" where
  "evname_of (ReqError e) = EvError"
| "evname_of (ReqResponse r) = EvResponse"
| "evname_of (ReqSocket k) = EvSocket"
| "evname_of ReqUploadComplete = EvUploadComplete"
| "evname_of ReqTimeout = EvTimeout"
| "evname_of (SockLookup k r) = EvLookup"
| "evname_of (SockConnect k) = EvConnect"
| "evname_of (SockSecureConnect k) = EvSecureConnect"
| "evname_of (RespEnd r) = EvEnd"

text \<open>
  The closures of the module that are handed to an emitter. \<open>CancelTimer i\<close> is the
  \<open>cancel\<close> closure that the \<open>i\<close>-th call of \<open>addTimeout\<close> returned. The last two are
  listeners of other consumers of the same emitters: \<open>Foreign n\<close> does not touch this
  module, \<open>ForeignCancel n\<close> calls the function that the attach call returned (line 168)
  and does nothing else.
\<close>

datatype handler =
    OnError                 \<comment> \<open>line 86, the listener given to \<open>request.on\<close>\<close>
  | OnResponse              \<comment> \<open>line 92\<close>
  | CancelTimeouts          \<comment> \<open>\<open>cancelTimeouts\<close>, as the listener of line 93\<close>
  | OnSocket                \<comment> \<open>line 115\<close>
  | CancelTimer nat         \<comment> \<open>\<open>cancel\<close> of lines 61-64\<close>
  | OnLookup nat            \<comment> \<open>line 132, on the socket with this identity\<close>
  | OnConnectSecure nat     \<comment> \<open>line 141, on the socket with this identity\<close>
  | OnConnectSend           \<comment> \<open>line 152\<close>
  | OnUploadComplete        \<comment> \<open>line 162\<close>
  | SocketTimeoutHandler    \<comment> \<open>\<open>socketTimeoutHandler\<close>, line 101\<close>
  | Foreign nat
  | ForeignCancel nat

fun foreign :: "handler \<Rightarrow> bool" where
  "foreign (Foreign n) = True"
| "foreign (ForeignCancel n) = True"
| "foreign h = False"

record listener =
  l_origin :: origin
  l_event :: evname
  l_fn :: handler
  l_once :: bool

text \<open>The closures pushed on \<open>cancelers\<close>: \<open>cancel\<close> of a timer, and the arrow function
  of lines 110-112.\<close>

datatype canceler = Cancel nat | RemoveSocketTimeout

text \<open>
  One call of \<open>addTimeout\<close> owns two handles: \<open>timeout\<close>, returned by \<open>setTimeout\<close>,
  and \<open>immediate\<close>, undefined until the timeout's callback has assigned it.
\<close>

datatype handle = Scheduled | Ran | Cleared

record timer =
  delay :: "nat option"
  args :: string
  timeout :: handle
  immediate :: "handle option"

datatype effect = EmitError err | Abort

text \<open>
  The state: the marker \<open>request[reentry]\<close>, the property \<open>request.socketPath\<close>, the
  arguments and local arrays captured by the closures of one call, the timers that call
  created, the listeners of every emitter in the order of their registration, and what the
  module did to the request (errors it emitted, aborts).
\<close>

record state =
  reentry :: bool
  socketPath :: "string option"
  delays :: delays
  options :: options
  cancelers :: "canceler list"
  handlers :: "(origin \<times> evname \<times> handler) list"
  timers :: "timer list"
  listeners :: "listener list"
  effects :: "effect list"

definition no_delays :: delays where
  "no_delays = \<lparr>lookup = None, connect = None, secureConnect = None, socket = None,
     response = None, send = None, request = None\<rparr>"

definition no_options :: options where
  "no_options = \<lparr>host = None, hostname = None, protocol = None\<rparr>"

text \<open>
  A request nobody has attached to yet. Other consumers may already listen to it, to its
  socket or to its response: each is given by its emitter, its event, a number that tells
  it apart, and whether it was registered with \<open>once\<close>.
\<close>

fun other_listener :: "origin \<times> evname \<times> nat \<times> bool \<Rightarrow> listener" where
  "other_listener (og, e, n, b) = \<lparr>l_origin = og, l_event = e, l_fn = Foreign n, l_once = b\<rparr>"

definition init :: "(origin \<times> evname \<times> nat \<times> bool) list \<Rightarrow> string option \<Rightarrow> state" where
  "init others sp = \<lparr>reentry = False, socketPath = sp, delays = no_delays, options = no_options,
     cancelers = [], handlers = [], timers = [], listeners = map other_listener others,
     effects = []\<rparr>"


subsection \<open>The event emitter of Node\<close>

definition emitter_on :: "origin \<Rightarrow> evname \<Rightarrow> handler \<Rightarrow> state \<Rightarrow> state" where
  "emitter_on og e f s =
     s\<lparr>listeners := listeners s @ [\<lparr>l_origin = og, l_event = e, l_fn = f, l_once = False\<rparr>]\<rparr>"

definition emitter_once :: "origin \<Rightarrow> evname \<Rightarrow> handler \<Rightarrow> state \<Rightarrow> state" where
  "emitter_once og e f s =
     s\<lparr>listeners := listeners s @ [\<lparr>l_origin = og, l_event = e, l_fn = f, l_once = True\<rparr>]\<rparr>"

text \<open>\<open>removeListener\<close> removes at most one listener, the most recently added that
  matches.\<close>

fun remove_last :: "('a \<Rightarrow> bool) \<Rightarrow> 'a list \<Rightarrow> 'a list" where
  "remove_last P [] = []"
| "remove_last P (x # xs) =
     (if list_ex P xs then x # remove_last P xs else if P x then xs else x # xs)"

definition is_listener :: "origin \<Rightarrow> evname \<Rightarrow> handler \<Rightarrow> listener \<Rightarrow> bool" where
  "is_listener og e f l \<longleftrightarrow> l_origin l = og \<and> l_event l = e \<and> l_fn l = f"

definition removeListener :: "origin \<Rightarrow> evname \<Rightarrow> handler \<Rightarrow> state \<Rightarrow> state" where
  "removeListener og e f s = s\<lparr>listeners := remove_last (is_listener og e f) (listeners s)\<rparr>"

definition listenerCount :: "origin \<Rightarrow> evname \<Rightarrow> state \<Rightarrow> nat" where
  "listenerCount og e s = length [l \<leftarrow> listeners s. l_origin l = og \<and> l_event l = e]"

subsection \<open>The helper module ./unhandle\<close>

text \<open>
  Modelled from the spec: the module \<open>./unhandle\<close>, whose \<open>once\<close> the source imports, is
  not among the source files. The spec says that the function returned by an attach call
  "releases every subscription registered by this call": \<open>once\<close> subscribes a one-shot
  listener to the emitter and records the emitter, the event and the listener.
\<close>

definition once :: "origin \<Rightarrow> evname \<Rightarrow> handler \<Rightarrow> state \<Rightarrow> state" where
  "once og e f s = (emitter_once og e f s)\<lparr>handlers := handlers s @ [(og, e, f)]\<rparr>"

text \<open>
  Modelled from the spec: \<open>unhandleAll\<close> of the same absent module. The spec says that
  the supervisor "must remove only the subscriptions it installed; it must never globally
  clear all listeners on a shared source": \<open>unhandleAll\<close> removes the recorded listeners,
  each from its own emitter and event, and forgets them.
\<close>

definition unhandleAll :: "state \<Rightarrow> state" where
  "unhandleAll s =
     (fold (\<lambda>(og, e, f). removeListener og e f) (handlers s) s)\<lparr>handlers := []\<rparr>"

subsection \<open>addTimeout and cancelTimeouts\<close>

text \<open>
  \<open>addTimeout\<close> (lines 43-69) schedules the timeout, pushes \<open>cancel\<close> on \<open>cancelers\<close> and
  returns it; the closure is named by the index of its timer. The callback is
  \<open>timeoutHandler\<close> at every call site, so only its argument, the event name, is kept.
  \<open>timers\<close> is the global timer interface, or the one a test puts on the request; the
  model is the same for both. \<open>unref\<close> changes what keeps the process alive, not what is
  scheduled, and is left out.
\<close>

definition addTimeout :: "nat option \<Rightarrow> string \<Rightarrow> state \<Rightarrow> nat \<times> state" where
  "addTimeout d a s =
     (length (timers s),
      s\<lparr>timers := timers s @ [\<lparr>delay = d, args = a, timeout = Scheduled, immediate = None\<rparr>],
        cancelers := cancelers s @ [Cancel (length (timers s))]\<rparr>)"

definition clearTimeout :: "timer \<Rightarrow> timer" where
  "clearTimeout t = (if timeout t = Scheduled then t\<lparr>timeout := Cleared\<rparr> else t)"

definition clearImmediate :: "timer \<Rightarrow> timer" where
  "clearImmediate t =
     (if immediate t = Some Scheduled then t\<lparr>immediate := Some Cleared\<rparr> else t)"

definition cancel :: "nat \<Rightarrow> state \<Rightarrow> state" where
  "cancel i s =
     (if i < length (timers s)
      then s\<lparr>timers := (timers s)[i := clearImmediate (clearTimeout (timers s ! i))]\<rparr>
      else s)"

fun run_canceler :: "canceler \<Rightarrow> state \<Rightarrow> state" where
  "run_canceler (Cancel i) s = cancel i s"
| "run_canceler RemoveSocketTimeout s = removeListener ORequest EvTimeout SocketTimeoutHandler s"

definition cancelTimeouts :: "state \<Rightarrow> state" where
  "cancelTimeouts s = unhandleAll (fold run_canceler (cancelers s) s)"

text \<open>
  The function that the first attach call returned (line 168), when a consumer that holds
  it calls it. Until that attach call has run there is no such function to call.
\<close>

definition call_returned :: "state \<Rightarrow> state" where
  "call_returned s = (if reentry s then cancelTimeouts s else s)"

definition pending :: "timer \<Rightarrow> bool" where
  "pending t \<longleftrightarrow> timeout t = Scheduled \<or> immediate t = Some Scheduled"

subsection \<open>Emission\<close>

text \<open>
  \<open>emit\<close> calls the listeners that were registered for the event when the emission
  started, in the order of registration, also those removed since; a one-shot listener
  removes itself before it runs (the model removes the most recent subscription of the
  same closure to the same event, which is the listener itself unless one closure is
  subscribed twice to one event, which the module never does). The function \<open>run\<close> says
  what each closure does with the arguments of the signal.
\<close>

definition call_listener :: "(handler \<Rightarrow> state \<Rightarrow> state) \<Rightarrow> listener \<Rightarrow> state \<Rightarrow> state" where
  "call_listener run l s =
     run (l_fn l)
       (if l_once l then removeListener (l_origin l) (l_event l) (l_fn l) s else s)"

definition emit_with :: "(handler \<Rightarrow> state \<Rightarrow> state) \<Rightarrow> origin \<Rightarrow> evname \<Rightarrow> state \<Rightarrow> state" where
  "emit_with run og e s =
     fold (call_listener run) [l \<leftarrow> listeners s. l_origin l = og \<and> l_event l = e] s"

text \<open>The listener of lines 86-90.\<close>

definition errorListener :: "err \<Rightarrow> state \<Rightarrow> state" where
  "errorListener error s = (if message error \<noteq> ''socket hang up'' then cancelTimeouts s else s)"

text \<open>
  What a closure does when an error is emitted on the request. The module registers
  nothing but \<open>OnError\<close> for that event; \<open>cancel\<close>, \<open>cancelTimeouts\<close> and the returned
  function take no argument and would run the same on any event; the other closures are
  never given to an error event and are left out.
\<close>

fun run_error :: "err \<Rightarrow> handler \<Rightarrow> state \<Rightarrow> state" where
  "run_error error OnError s = errorListener error s"
| "run_error error (CancelTimer i) s = cancel i s"
| "run_error error CancelTimeouts s = cancelTimeouts s"
| "run_error error (ForeignCancel n) s = call_returned s"
| "run_error error h s = s"

text \<open>\<open>timeoutHandler\<close> (lines 73-76): emit the error, then abort.\<close>

definition abort :: "state \<Rightarrow> state" where
  "abort s = s\<lparr>effects := effects s @ [Abort]\<rparr>"

definition timeoutHandler :: "nat option \<Rightarrow> string \<Rightarrow> state \<Rightarrow> state" where
  "timeoutHandler d event s =
     abort (emit_with (run_error (TimeoutError d event)) ORequest EvError
       (s\<lparr>effects := effects s @ [EmitError (TimeoutError d event)]\<rparr>))"

subsection \<open>The listeners of the socket phase\<close>

text \<open>JavaScript truthiness of a string that may be undefined, and \<open>hostname || host\<close>.\<close>

fun truthy :: "string option \<Rightarrow> bool" where
  "truthy None = False"
| "truthy (Some x) = (x \<noteq> [])"

definition target :: "options \<Rightarrow> string option" where
  "target opts = (if truthy (hostname opts) then hostname opts else host opts)"

text \<open>
  \<open>net.isIP\<close> belongs to Node; it is a parameter \<open>isIP\<close> of the model, a function to
  0, 4 or 6. Node returns 0 when the argument is not a string.
\<close>

fun isIP_of :: "(string \<Rightarrow> nat) \<Rightarrow> string option \<Rightarrow> nat" where
  "isIP_of isIP None = 0"
| "isIP_of isIP (Some h) = isIP h"

definition timeConnect :: "state \<Rightarrow> nat \<times> state" where
  "timeConnect s = addTimeout (connect (delays s)) ''connect'' s"

definition timeRequest :: "state \<Rightarrow> nat \<times> state" where
  "timeRequest s = addTimeout (send (delays s)) ''send'' s"

text \<open>\<open>once (origin, event, f ())\<close> where \<open>f\<close> arms a timer and returns its \<open>cancel\<close>:
  the argument is evaluated first.\<close>

definition once_cancel :: "origin \<Rightarrow> evname \<Rightarrow> nat \<times> state \<Rightarrow> state" where
  "once_cancel og e r = once og e (CancelTimer (fst r)) (snd r)"

text \<open>The listener of lines 115-159, in three parts.\<close>

definition socket_lookup :: "(string \<Rightarrow> nat) \<Rightarrow> sock \<Rightarrow> state \<Rightarrow> state" where
  "socket_lookup isIP k s =
     (if lookup (delays s) \<noteq> None \<and> \<not> truthy (socketPath s)
         \<and> isIP_of isIP (target (options s)) = 0 \<and> address k = None
      then once_cancel (OSocket (sid k)) EvLookup (addTimeout (lookup (delays s)) ''lookup'' s)
      else s)"

definition socket_connect :: "(string \<Rightarrow> nat) \<Rightarrow> sock \<Rightarrow> state \<Rightarrow> state" where
  "socket_connect isIP k s =
     (if connect (delays s) \<noteq> None
      then (if truthy (socketPath s) \<or> isIP_of isIP (target (options s)) \<noteq> 0
            then once_cancel (OSocket (sid k)) EvConnect (timeConnect s)
            else once (OSocket (sid k)) EvLookup (OnLookup (sid k)) s)
      else s)"

definition socket_secure :: "sock \<Rightarrow> state \<Rightarrow> state" where
  "socket_secure k s =
     (if secureConnect (delays s) \<noteq> None \<and> protocol (options s) = Some ''https:''
      then once (OSocket (sid k)) EvConnect (OnConnectSecure (sid k)) s
      else s)"

definition socket_send :: "sock \<Rightarrow> state \<Rightarrow> state" where
  "socket_send k s =
     (if send (delays s) \<noteq> None
      then (if connecting k
            then once (OSocket (sid k)) EvConnect OnConnectSend s
            else once_cancel ORequest EvUploadComplete (timeRequest s))
      else s)"

definition onSocket :: "(string \<Rightarrow> nat) \<Rightarrow> sock \<Rightarrow> state \<Rightarrow> state" where
  "onSocket isIP k s =
     socket_send k
       (if connecting k
        then socket_secure k (socket_connect isIP k (socket_lookup isIP k s))
        else s)"

text \<open>
  What each closure does when it is called with the arguments of a signal. A closure that
  reads an argument is defined on the signal that carries it, which is the signal the
  source registers it for; on any other signal the state is left as it is. That last case
  does not arise in a state reached from an attach call: there every closure of the module
  is subscribed only to the emitter and event the source subscribes it to (the invariant
  \<open>well_placed\<close> below).
\<close>

fun run :: "(string \<Rightarrow> nat) \<Rightarrow> signal \<Rightarrow> handler \<Rightarrow> state \<Rightarrow> state" where
  "run isIP (ReqError error) h s = run_error error h s"
| "run isIP sig (CancelTimer i) s = cancel i s"
| "run isIP sig CancelTimeouts s = cancelTimeouts s"
| "run isIP sig (ForeignCancel n) s = call_returned s"
| "run isIP (ReqResponse r) OnResponse s = once (OResponse r) EvEnd CancelTimeouts s"
| "run isIP (ReqSocket k) OnSocket s = onSocket isIP k s"
| "run isIP (SockLookup k error) (OnLookup k') s =
     (if error = None then once_cancel (OSocket k') EvConnect (timeConnect s) else s)"
| "run isIP (SockConnect k) (OnConnectSecure k') s =
     once_cancel (OSocket k') EvSecureConnect
       (addTimeout (secureConnect (delays s)) ''secureConnect'' s)"
| "run isIP (SockConnect k) OnConnectSend s =
     once_cancel ORequest EvUploadComplete (timeRequest s)"
| "run isIP ReqUploadComplete OnUploadComplete s =
     once_cancel ORequest EvResponse (addTimeout (response (delays s)) ''response'' s)"
| "run isIP ReqTimeout SocketTimeoutHandler s = timeoutHandler (socket (delays s)) ''socket'' s"
| "run isIP sig h s = s"

definition emit :: "(string \<Rightarrow> nat) \<Rightarrow> signal \<Rightarrow> state \<Rightarrow> state" where
  "emit isIP sig s = emit_with (run isIP sig) (origin_of sig) (evname_of sig) s"

subsection \<open>The exported function\<close>

text \<open>
  \<open>request.setTimeout (ms, callback)\<close> of Node registers the callback as a one-shot
  listener of the request's \<open>timeout\<close> event; the idle timer itself belongs to the socket
  and is not a timer of this module.
\<close>

definition request_setTimeout :: "handler \<Rightarrow> state \<Rightarrow> state" where
  "request_setTimeout f s = emitter_once ORequest EvTimeout f s"

datatype cancel_fn = Noop | CancelAll

definition attach_request :: "state \<Rightarrow> state" where
  "attach_request s =
     (if request (delays s) \<noteq> None
      then snd (addTimeout (request (delays s)) ''request'' s) else s)"

definition attach_socket :: "state \<Rightarrow> state" where
  "attach_socket s =
     (if socket (delays s) \<noteq> None
      then (request_setTimeout SocketTimeoutHandler s)
             \<lparr>cancelers := cancelers s @ [RemoveSocketTimeout]\<rparr>
      else s)"

definition attach_response :: "state \<Rightarrow> state" where
  "attach_response s =
     (if response (delays s) \<noteq> None
      then once ORequest EvUploadComplete OnUploadComplete s else s)"

definition timedOut :: "delays \<Rightarrow> options \<Rightarrow> state \<Rightarrow> cancel_fn \<times> state" where
  "timedOut dl opts s =
     (if reentry s then (Noop, s)
      else (CancelAll,
        attach_response
          (once ORequest EvSocket OnSocket
            (attach_socket
              (attach_request
                (once ORequest EvResponse OnResponse
                  (emitter_on ORequest EvError OnError
                    (s\<lparr>reentry := True, delays := dl, options := opts,
                       cancelers := [], handlers := []\<rparr>))))))))"

fun invoke :: "cancel_fn \<Rightarrow> state \<Rightarrow> state" where
  "invoke Noop s = s"
| "invoke CancelAll s = cancelTimeouts s"

subsection \<open>Turns of the event loop\<close>

text \<open>
  One turn is: a call of the exported function, a call of the function the first such
  call returned, the delivery of a signal, the callback of a timeout (which schedules the
  immediate, lines 48-54), or the callback of an immediate (which calls
  \<open>timeoutHandler\<close> with the delay and the event name).
\<close>

datatype event =
    Attach delays options
  | CallCancel
  | Signal signal
  | TimeoutElapsed nat
  | ImmediateRan nat

definition timeout_elapsed :: "nat \<Rightarrow> state \<Rightarrow> state" where
  "timeout_elapsed i s =
     (if i < length (timers s) \<and> timeout (timers s ! i) = Scheduled
      then s\<lparr>timers := (timers s)[i := (timers s ! i)\<lparr>timeout := Ran, immediate := Some Scheduled\<rparr>]\<rparr>
      else s)"

definition immediate_ran :: "nat \<Rightarrow> state \<Rightarrow> state" where
  "immediate_ran i s =
     (if i < length (timers s) \<and> immediate (timers s ! i) = Some Scheduled
      then timeoutHandler (delay (timers s ! i)) (args (timers s ! i))
             (s\<lparr>timers := (timers s)[i := (timers s ! i)\<lparr>immediate := Some Ran\<rparr>]\<rparr>)
      else s)"

fun step :: "(string \<Rightarrow> nat) \<Rightarrow> event \<Rightarrow> state \<Rightarrow> state" where
  "step isIP (Attach dl opts) s = snd (timedOut dl opts s)"
| "step isIP CallCancel s = (if reentry s then invoke CancelAll s else s)"
| "step isIP (Signal sig) s = emit isIP sig s"
| "step isIP (TimeoutElapsed i) s = timeout_elapsed i s"
| "step isIP (ImmediateRan i) s = immediate_ran i s"

definition run_events :: "(string \<Rightarrow> nat) \<Rightarrow> event list \<Rightarrow> state \<Rightarrow> state" where
  "run_events isIP evs s = fold (step isIP) evs s"

section \<open>Invariants and auxiliary notions\<close>

text \<open>Both clear calls of \<open>cancel\<close>, on one timer.\<close>

definition clear :: "timer \<Rightarrow> timer" where
  "clear t = clearImmediate (clearTimeout t)"

text \<open>What \<open>removeListener\<close> matches a listener by.\<close>

definition key :: "listener \<Rightarrow> origin \<times> evname \<times> handler" where
  "key l = (l_origin l, l_event l, l_fn l)"

text \<open>The closures of the module that \<open>cancelTimeouts\<close> is to release: all but the error listener.\<close>

definition releasable :: "handler \<Rightarrow> bool" where
  "releasable h \<longleftrightarrow> h \<noteq> OnError \<and> \<not> foreign h"

text \<open>The releasable subscriptions that are installed, with multiplicity.\<close>

definition installed :: "listener list \<Rightarrow> (origin \<times> evname \<times> handler) multiset" where
  "installed ls = mset (map key [l \<leftarrow> ls. releasable (l_fn l)])"

definition same_env :: "state \<Rightarrow> state \<Rightarrow> bool" where
  "same_env s t \<longleftrightarrow> reentry t = reentry s \<and> socketPath t = socketPath s
     \<and> delays t = delays s \<and> options t = options s"

text \<open>The delay of \<open>Delays\<close> that belongs to an event name passed to \<open>addTimeout\<close> or \<open>timeoutHandler\<close>.\<close>

definition delay_for :: "delays \<Rightarrow> string \<Rightarrow> nat option" where
  "delay_for dl a =
     (if a = ''request'' then request dl
      else if a = ''lookup'' then lookup dl
      else if a = ''connect'' then connect dl
      else if a = ''secureConnect'' then secureConnect dl
      else if a = ''send'' then send dl
      else if a = ''response'' then response dl
      else if a = ''socket'' then socket dl
      else None)"

text \<open>The delay a closure reads when it runs is present.\<close>

fun handler_ok :: "delays \<Rightarrow> handler \<Rightarrow> bool" where
  "handler_ok dl (OnLookup k) = (connect dl \<noteq> None)"
| "handler_ok dl (OnConnectSecure k) = (secureConnect dl \<noteq> None)"
| "handler_ok dl OnConnectSend = (send dl \<noteq> None)"
| "handler_ok dl OnUploadComplete = (response dl \<noteq> None)"
| "handler_ok dl SocketTimeoutHandler = (socket dl \<noteq> None)"
| "handler_ok dl h = True"

text \<open>Every timer has its \<open>cancel\<close> on \<open>cancelers\<close>.\<close>

definition cover :: "state \<Rightarrow> bool" where
  "cover s \<longleftrightarrow> (\<forall>i < length (timers s). Cancel i \<in> set (cancelers s))"

text \<open>What \<open>cancelTimeouts\<close> will remove: the recorded handlers, and one \<open>socketTimeoutHandler\<close> for each canceler of lines 110-112.\<close>

definition owned :: "state \<Rightarrow> (origin \<times> evname \<times> handler) multiset" where
  "owned s = mset (handlers s)
     + replicate_mset (count_list (cancelers s) RemoveSocketTimeout)
         (ORequest, EvTimeout, SocketTimeoutHandler)"

text \<open>Every timer carries the delay of its phase, which is present, and every subscribed closure will find the delay it reads.\<close>

definition configured :: "state \<Rightarrow> bool" where
  "configured s \<longleftrightarrow>
     (\<forall>t \<in> set (timers s). delay t \<noteq> None \<and> delay_for (delays s) (args t) = delay t)
     \<and> (\<forall>l \<in> set (listeners s). handler_ok (delays s) (l_fn l))"

text \<open>The invariant of a request after the attach call.\<close>

definition attached_inv :: "state \<Rightarrow> bool" where
  "attached_inv s \<longleftrightarrow> cover s \<and> installed (listeners s) \<subseteq># owned s \<and> configured s"

text \<open>Nothing pending and nothing subscribed but the error listener and the listeners of others.\<close>

definition quiescent :: "state \<Rightarrow> bool" where
  "quiescent s \<longleftrightarrow> (\<forall>t \<in> set (timers s). \<not> pending t)
     \<and> (\<forall>l \<in> set (listeners s). l_fn l = OnError \<or> foreign (l_fn l))
     \<and> handlers s = []"

definition remove_handlers :: "(origin \<times> evname \<times> handler) list \<Rightarrow> state \<Rightarrow> state" where
  "remove_handlers hs s = fold (\<lambda>(og, e, f). removeListener og e f) hs s"

definition unattached :: "state \<Rightarrow> bool" where
  "unattached s \<longleftrightarrow> \<not> reentry s \<and> timers s = [] \<and> (\<forall>l \<in> set (listeners s). foreign (l_fn l))"

text \<open>The invariant of every reached state.\<close>

definition reach_inv :: "state \<Rightarrow> bool" where
  "reach_inv s \<longleftrightarrow> (if reentry s then attached_inv s else unattached s)"


definition error_listener :: listener where
  "error_listener = \<lparr>l_origin = ORequest, l_event = EvError, l_fn = OnError, l_once = False\<rparr>"

fun is_socket :: "origin \<Rightarrow> bool" where
  "is_socket (OSocket k) = True"
| "is_socket og = False"

fun is_response :: "origin \<Rightarrow> bool" where
  "is_response (OResponse r) = True"
| "is_response og = False"

text \<open>Where the source registers each closure: the emitter, the event, and whether once.\<close>

fun placed :: "handler \<Rightarrow> origin \<Rightarrow> evname \<Rightarrow> bool \<Rightarrow> bool" where
  "placed OnError og e b = (og = ORequest \<and> e = EvError \<and> \<not> b)"
| "placed OnResponse og e b = (og = ORequest \<and> e = EvResponse \<and> b)"
| "placed CancelTimeouts og e b = (is_response og \<and> e = EvEnd \<and> b)"
| "placed OnSocket og e b = (og = ORequest \<and> e = EvSocket \<and> b)"
| "placed (CancelTimer i) og e b =
     ((is_socket og \<and> (e = EvLookup \<or> e = EvConnect \<or> e = EvSecureConnect)
       \<or> og = ORequest \<and> (e = EvUploadComplete \<or> e = EvResponse)) \<and> b)"
| "placed (OnLookup k) og e b = (og = OSocket k \<and> e = EvLookup \<and> b)"
| "placed (OnConnectSecure k) og e b = (og = OSocket k \<and> e = EvConnect \<and> b)"
| "placed OnConnectSend og e b = (is_socket og \<and> e = EvConnect \<and> b)"
| "placed OnUploadComplete og e b = (og = ORequest \<and> e = EvUploadComplete \<and> b)"
| "placed SocketTimeoutHandler og e b = (og = ORequest \<and> e = EvTimeout \<and> b)"
| "placed (Foreign n) og e b = True"
| "placed (ForeignCancel n) og e b = True"

definition place_ok :: "listener \<Rightarrow> bool" where
  "place_ok l \<longleftrightarrow> placed (l_fn l) (l_origin l) (l_event l) (l_once l)"

text \<open>The error listener is subscribed, every listener is where the source subscribes it, and only releasable closures are recorded by the helper.\<close>

definition well_placed :: "state \<Rightarrow> bool" where
  "well_placed s \<longleftrightarrow> error_listener \<in> set (listeners s)
     \<and> (\<forall>l \<in> set (listeners s). place_ok l)
     \<and> (\<forall>h \<in> set (handlers s). releasable (snd (snd h)))"

fun cancelling :: "handler \<Rightarrow> bool" where
  "cancelling (ForeignCancel n) = True"
| "cancelling h = False"

text \<open>No other consumer has subscribed a listener that calls the returned function.\<close>

definition inert_others :: "state \<Rightarrow> bool" where
  "inert_others s \<longleftrightarrow> (\<forall>l \<in> set (listeners s). \<not> cancelling (l_fn l))"

text \<open>The calls of \<open>addTimeout\<close> so far, in order: the event name and the delay of each.\<close>

definition armed :: "state \<Rightarrow> (string \<times> nat option) list" where
  "armed s = map (\<lambda>t. (args t, delay t)) (timers s)"

text \<open>The timers the listener of lines 115-159 creates.\<close>

definition created_onSocket :: "(string \<Rightarrow> nat) \<Rightarrow> sock \<Rightarrow> state \<Rightarrow> (string \<times> nat option) list" where
  "created_onSocket isIP k s =
     (if connecting k
      then (if lookup (delays s) \<noteq> None \<and> \<not> truthy (socketPath s)
               \<and> isIP_of isIP (target (options s)) = 0 \<and> address k = None
            then [(''lookup'', lookup (delays s))] else [])
         @ (if connect (delays s) \<noteq> None
               \<and> (truthy (socketPath s) \<or> isIP_of isIP (target (options s)) \<noteq> 0)
            then [(''connect'', connect (delays s))] else [])
      else [])
     @ (if send (delays s) \<noteq> None \<and> \<not> connecting k then [(''send'', send (delays s))] else [])"

fun created :: "(string \<Rightarrow> nat) \<Rightarrow> signal \<Rightarrow> handler \<Rightarrow> state \<Rightarrow> (string \<times> nat option) list" where
  "created isIP (ReqSocket k) OnSocket s = created_onSocket isIP k s"
| "created isIP (SockLookup k None) (OnLookup k') s = [(''connect'', connect (delays s))]"
| "created isIP (SockConnect k) (OnConnectSecure k') s = [(''secureConnect'', secureConnect (delays s))]"
| "created isIP (SockConnect k) OnConnectSend s = [(''send'', send (delays s))]"
| "created isIP ReqUploadComplete OnUploadComplete s = [(''response'', response (delays s))]"
| "created isIP sig h s = []"

text \<open>The timers the delivery of a signal creates: those of each listener called.\<close>

definition created_by_signal :: "(string \<Rightarrow> nat) \<Rightarrow> signal \<Rightarrow> state \<Rightarrow> (string \<times> nat option) list" where
  "created_by_signal isIP sig s =
     concat (map (\<lambda>l. created isIP sig (l_fn l) s)
       [l \<leftarrow> listeners s. l_origin l = origin_of sig \<and> l_event l = evname_of sig])"

fun created_by :: "(string \<Rightarrow> nat) \<Rightarrow> event \<Rightarrow> state \<Rightarrow> (string \<times> nat option) list" where
  "created_by isIP (Attach dl opts) s =
     (if \<not> reentry s \<and> request dl \<noteq> None then [(''request'', request dl)] else [])"
| "created_by isIP (Signal sig) s = created_by_signal isIP sig s"
| "created_by isIP ev s = []"

definition frozen :: "nat \<Rightarrow> timer \<Rightarrow> state \<Rightarrow> bool" where
  "frozen i T s \<longleftrightarrow> i < length (timers s) \<and> timers s ! i = T \<and> \<not> pending T"

definition cancels_on :: "string \<Rightarrow> origin \<Rightarrow> evname \<Rightarrow> bool" where
  "cancels_on a og e \<longleftrightarrow>
     a = ''lookup'' \<and> is_socket og \<and> e = EvLookup
     \<or> a = ''connect'' \<and> is_socket og \<and> e = EvConnect
     \<or> a = ''secureConnect'' \<and> is_socket og \<and> e = EvSecureConnect
     \<or> a = ''send'' \<and> og = ORequest \<and> e = EvUploadComplete
     \<or> a = ''response'' \<and> og = ORequest \<and> e = EvResponse"

text \<open>A pending timer other than the request timer has its \<open>cancel\<close> subscribed to the event of its phase.\<close>

definition guard :: "nat \<Rightarrow> state \<Rightarrow> bool" where
  "guard i s \<longleftrightarrow> \<not> pending (timers s ! i) \<or> args (timers s ! i) = ''request''
     \<or> (\<exists>l \<in> set (listeners s). l_fn l = CancelTimer i
           \<and> cancels_on (args (timers s ! i)) (l_origin l) (l_event l))"

definition guarded :: "state \<Rightarrow> bool" where
  "guarded s \<longleftrightarrow> (\<forall>i < length (timers s). guard i s)"

definition safe :: "delays \<Rightarrow> state \<Rightarrow> bool" where
  "safe dl s \<longleftrightarrow> attached_inv s \<and> guarded s \<and> delays s = dl"

text \<open>What belongs to the module in a state: timers, its own listeners, cancelers, effects.\<close>

definition own_part :: "state \<Rightarrow> timer list \<times> listener list \<times> canceler list \<times> effect list" where
  "own_part s = (timers s, [l \<leftarrow> listeners s. \<not> foreign (l_fn l)], cancelers s, effects s)"

definition listens :: "origin \<Rightarrow> evname \<Rightarrow> handler \<Rightarrow> state \<Rightarrow> bool" where
  "listens og e f s \<longleftrightarrow> list_ex (is_listener og e f) (listeners s)"

text \<open>The listeners that an emission of the signal calls, in their order.\<close>

definition snapshot :: "signal \<Rightarrow> state \<Rightarrow> listener list" where
  "snapshot sig s = [l \<leftarrow> listeners s. l_origin l = origin_of sig \<and> l_event l = evname_of sig]"

text \<open>The state in the middle of an emission, when the first \<open>n\<close> listeners have returned.\<close>

definition during :: "(string \<Rightarrow> nat) \<Rightarrow> signal \<Rightarrow> nat \<Rightarrow> state \<Rightarrow> state" where
  "during isIP sig n s = fold (call_listener (run isIP sig)) (take n (snapshot sig s)) s"





text \<open>The timer with index \<open>i\<close> is the one that was armed with this delay and event name, and its immediate exists only if its timeout has run.\<close>

definition tracked :: "nat \<Rightarrow> nat option \<Rightarrow> string \<Rightarrow> state \<Rightarrow> bool" where
  "tracked i d a s \<longleftrightarrow> i < length (timers s) \<and> delay (timers s ! i) = d
     \<and> args (timers s ! i) = a
     \<and> (immediate (timers s ! i) = None \<or> timeout (timers s ! i) = Ran)"

text \<open>The same, said of the timer itself.\<close>

definition orderly :: "nat option \<Rightarrow> string \<Rightarrow> timer \<Rightarrow> bool" where
  "orderly d a T \<longleftrightarrow> delay T = d \<and> args T = a \<and> (immediate T = None \<or> timeout T = Ran)"

text \<open>Inputs of the witnesses: a stand-in for \<open>net.isIP\<close> that knows one address, some delays and options, a socket that is connecting, two errors with the same code.\<close>

definition ip4 :: "string \<Rightarrow> nat" where
  "ip4 h = (if h = ''127.0.0.1'' then 4 else 0)"

definition connect_1ms :: delays where
  "connect_1ms = no_delays\<lparr>connect := Some 1\<rparr>"

definition request_5ms :: delays where
  "request_5ms = no_delays\<lparr>request := Some 5\<rparr>"

definition lookup_3ms :: delays where
  "lookup_3ms = no_delays\<lparr>lookup := Some 3\<rparr>"

definition socket_7ms :: delays where
  "socket_7ms = no_delays\<lparr>socket := Some 7\<rparr>"

definition to_localhost :: options where
  "to_localhost = no_options\<lparr>hostname := Some ''127.0.0.1''\<rparr>"

definition to_example :: options where
  "to_example = no_options\<lparr>hostname := Some ''example.com''\<rparr>"

definition fresh_socket :: sock where
  "fresh_socket = \<lparr>sid = 0, connecting = True, address = None\<rparr>"

definition hang_up :: err where
  "hang_up = OtherError ''socket hang up'' (Some ''ECONNRESET'')"

definition reset :: err where
  "reset = OtherError ''read ECONNRESET'' (Some ''ECONNRESET'')"




definition connect_and_secure :: delays where
  "connect_and_secure = no_delays\<lparr>connect := Some 1, secureConnect := Some 2\<rparr>"

definition https_to_example :: options where
  "https_to_example = no_options\<lparr>hostname := Some ''example.com'', protocol := Some ''https:''\<rparr>"

text \<open>Further inputs of the witnesses.\<close>

definition all_but_connect :: delays where
  "all_but_connect = \<lparr>lookup = Some 3, connect = None, secureConnect = Some 4,
     socket = Some 7, response = Some 9, send = Some 8, request = Some 50\<rparr>"

definition secure_to_localhost :: options where
  "secure_to_localhost = to_localhost\<lparr>protocol := Some ''https:''\<rparr>"

definition a_listener_of_timeout :: "origin \<times> evname \<times> nat \<times> bool" where
  "a_listener_of_timeout = (ORequest, EvTimeout, 0, False)"

section \<open>Proofs\<close>

subsection \<open>What each primitive changes\<close>

lemma emitter_on_fields [simp]:
  "reentry (emitter_on og e f s) = reentry s"
  "socketPath (emitter_on og e f s) = socketPath s"
  "delays (emitter_on og e f s) = delays s"
  "options (emitter_on og e f s) = options s"
  "cancelers (emitter_on og e f s) = cancelers s"
  "handlers (emitter_on og e f s) = handlers s"
  "timers (emitter_on og e f s) = timers s"
  "effects (emitter_on og e f s) = effects s"
  "listeners (emitter_on og e f s) =
     listeners s @ [\<lparr>l_origin = og, l_event = e, l_fn = f, l_once = False\<rparr>]"
  by (simp_all add: emitter_on_def)

lemma emitter_once_fields [simp]:
  "reentry (emitter_once og e f s) = reentry s"
  "socketPath (emitter_once og e f s) = socketPath s"
  "delays (emitter_once og e f s) = delays s"
  "options (emitter_once og e f s) = options s"
  "cancelers (emitter_once og e f s) = cancelers s"
  "handlers (emitter_once og e f s) = handlers s"
  "timers (emitter_once og e f s) = timers s"
  "effects (emitter_once og e f s) = effects s"
  "listeners (emitter_once og e f s) =
     listeners s @ [\<lparr>l_origin = og, l_event = e, l_fn = f, l_once = True\<rparr>]"
  by (simp_all add: emitter_once_def)

lemma once_fields [simp]:
  "reentry (once og e f s) = reentry s"
  "socketPath (once og e f s) = socketPath s"
  "delays (once og e f s) = delays s"
  "options (once og e f s) = options s"
  "cancelers (once og e f s) = cancelers s"
  "handlers (once og e f s) = handlers s @ [(og, e, f)]"
  "timers (once og e f s) = timers s"
  "effects (once og e f s) = effects s"
  "listeners (once og e f s) =
     listeners s @ [\<lparr>l_origin = og, l_event = e, l_fn = f, l_once = True\<rparr>]"
  by (simp_all add: once_def)

lemma removeListener_fields [simp]:
  "reentry (removeListener og e f s) = reentry s"
  "socketPath (removeListener og e f s) = socketPath s"
  "delays (removeListener og e f s) = delays s"
  "options (removeListener og e f s) = options s"
  "cancelers (removeListener og e f s) = cancelers s"
  "handlers (removeListener og e f s) = handlers s"
  "timers (removeListener og e f s) = timers s"
  "effects (removeListener og e f s) = effects s"
  "listeners (removeListener og e f s) = remove_last (is_listener og e f) (listeners s)"
  by (simp_all add: removeListener_def)

lemma addTimeout_fields [simp]:
  "fst (addTimeout d a s) = length (timers s)"
  "reentry (snd (addTimeout d a s)) = reentry s"
  "socketPath (snd (addTimeout d a s)) = socketPath s"
  "delays (snd (addTimeout d a s)) = delays s"
  "options (snd (addTimeout d a s)) = options s"
  "cancelers (snd (addTimeout d a s)) = cancelers s @ [Cancel (length (timers s))]"
  "handlers (snd (addTimeout d a s)) = handlers s"
  "timers (snd (addTimeout d a s)) =
     timers s @ [\<lparr>delay = d, args = a, timeout = Scheduled, immediate = None\<rparr>]"
  "effects (snd (addTimeout d a s)) = effects s"
  "listeners (snd (addTimeout d a s)) = listeners s"
  by (simp_all add: addTimeout_def)

lemma cancel_fields [simp]:
  "reentry (cancel i s) = reentry s"
  "socketPath (cancel i s) = socketPath s"
  "delays (cancel i s) = delays s"
  "options (cancel i s) = options s"
  "cancelers (cancel i s) = cancelers s"
  "handlers (cancel i s) = handlers s"
  "effects (cancel i s) = effects s"
  "listeners (cancel i s) = listeners s"
  "timers (cancel i s) = (timers s)[i := clear (timers s ! i)]"
  by (simp_all add: cancel_def clear_def list_update_beyond)

lemma abort_fields [simp]:
  "reentry (abort s) = reentry s"
  "socketPath (abort s) = socketPath s"
  "delays (abort s) = delays s"
  "options (abort s) = options s"
  "cancelers (abort s) = cancelers s"
  "handlers (abort s) = handlers s"
  "timers (abort s) = timers s"
  "listeners (abort s) = listeners s"
  "effects (abort s) = effects s @ [Abort]"
  by (simp_all add: abort_def)

lemma clear_simps [simp]:
  "\<not> pending (clear t)"
  "clear (clear t) = clear t"
  "delay (clear t) = delay t"
  "args (clear t) = args t"
  "\<not> pending t \<Longrightarrow> clear t = t"
  by (simp_all add: clear_def clearTimeout_def clearImmediate_def pending_def)

subsection \<open>Removing one listener\<close>

lemma remove_last_none: "\<not> list_ex P xs \<Longrightarrow> remove_last P xs = xs"
  by (induction xs) (auto simp: list_ex_iff)

lemma set_remove_last: "set (remove_last P xs) \<subseteq> set xs"
  by (induction xs) auto

lemma filter_remove_last:
  "(\<And>x. P x \<Longrightarrow> \<not> Q x) \<Longrightarrow> filter Q (remove_last P xs) = filter Q xs"
  by (induction xs) auto

lemma installed_simps [simp]:
  "installed [] = {#}"
  "installed (ls @ ls') = installed ls + installed ls'"
  "installed (l # ls) = (if releasable (l_fn l) then add_mset (key l) (installed ls) else installed ls)"
  by (simp_all add: installed_def)

lemma is_listener_key: "is_listener og e f = (\<lambda>l. key l = (og, e, f))"
  by (auto simp: is_listener_def key_def fun_eq_iff)

lemma mset_filter_remove_last:
  assumes "\<And>x. g x = k \<Longrightarrow> Q x = q"
  shows "mset (map g (filter Q (remove_last (\<lambda>x. g x = k) xs))) =
     (if q then mset (map g (filter Q xs)) - {#k#} else mset (map g (filter Q xs)))"
proof (induction xs)
  case Nil
  show ?case by simp
next
  case (Cons x xs)
  show ?case
  proof (cases "list_ex (\<lambda>x. g x = k) xs")
    case True
    then obtain y where y: "y \<in> set xs" "g y = k"
      by (auto simp: list_ex_iff)
    with assms have "q \<Longrightarrow> k \<in># mset (map g (filter Q xs))"
      by auto
    with True Cons show ?thesis
      by auto
  next
    case False
    then have notin: "k \<notin># mset (map g (filter Q xs))"
      by (auto simp: list_ex_iff)
    show ?thesis
    proof (cases "g x = k")
      case True
      with False assms [OF True] show ?thesis by auto
    next
      case neq: False
      with False notin show ?thesis by (auto simp: diff_single_trivial)
    qed
  qed
qed

lemma installed_remove_last:
  "installed (remove_last (is_listener og e f) ls) =
     (if releasable f then installed ls - {#(og, e, f)#} else installed ls)"
  unfolding installed_def is_listener_key
  by (rule mset_filter_remove_last) (simp add: key_def)

lemma installed_remove_last_subset:
  "installed (remove_last (is_listener og e f) ls) \<subseteq># installed ls"
  by (simp add: installed_remove_last)

lemma installed_empty_iff:
  "installed ls = {#} \<longleftrightarrow> (\<forall>l\<in>set ls. l_fn l = OnError \<or> foreign (l_fn l))"
  by (induction ls) (auto simp: releasable_def)

subsection \<open>What no listener changes: the marker and the captured arguments\<close>

lemma same_env_refl [simp]: "same_env s s"
  by (simp add: same_env_def)

lemma same_env_trans: "same_env s t \<Longrightarrow> same_env t u \<Longrightarrow> same_env s u"
  by (simp add: same_env_def)

lemma same_env_fold:
  "(\<And>x s. same_env s (f x s)) \<Longrightarrow> same_env s (fold f xs s)"
proof (induction xs arbitrary: s)
  case Nil
  show ?case by simp
next
  case (Cons x xs)
  have "same_env s (f x s)" by (rule Cons.prems)
  moreover have "same_env (f x s) (fold f xs (f x s))"
    by (rule Cons.IH) (rule Cons.prems)
  ultimately show ?case
    by (auto intro: same_env_trans)
qed

lemma same_env_prims [simp]:
  "same_env s (emitter_on og e f s)"
  "same_env s (emitter_once og e f s)"
  "same_env s (once og e f s)"
  "same_env s (removeListener og e f s)"
  "same_env s (snd (addTimeout d a s))"
  "same_env s (cancel i s)"
  "same_env s (abort s)"
  by (simp_all add: same_env_def)

lemma same_env_run_canceler [simp]: "same_env s (run_canceler c s)"
  by (cases c) simp_all

lemma same_env_unhandleAll [simp]: "same_env s (unhandleAll s)"
proof -
  have "same_env s (fold (\<lambda>(og, e, f). removeListener og e f) (handlers s) s)"
    by (rule same_env_fold) (simp add: split_def)
  then show ?thesis
    by (simp add: unhandleAll_def same_env_def)
qed

lemma same_env_cancelTimeouts [simp]: "same_env s (cancelTimeouts s)"
  unfolding cancelTimeouts_def
  by (rule same_env_trans [OF same_env_fold same_env_unhandleAll]) simp

lemma same_env_errorListener [simp]: "same_env s (errorListener error s)"
  by (simp add: errorListener_def)

lemma call_returned_cases: "call_returned s = s \<or> call_returned s = cancelTimeouts s"
  by (simp add: call_returned_def)

lemma call_returned_unattached [simp]: "\<not> reentry s \<Longrightarrow> call_returned s = s"
  by (simp add: call_returned_def)

lemma call_returned_attached [simp]: "reentry s \<Longrightarrow> call_returned s = cancelTimeouts s"
  by (simp add: call_returned_def)

lemma same_env_call_returned [simp]: "same_env s (call_returned s)"
  by (simp add: call_returned_def)

lemma same_env_run_error [simp]: "same_env s (run_error error h s)"
  by (cases h) simp_all

lemma same_env_call_listener:
  "(\<And>h s. same_env s (r h s)) \<Longrightarrow> same_env s (call_listener r l s)"
  unfolding call_listener_def
  by (rule same_env_trans [of _ "if l_once l then removeListener (l_origin l) (l_event l) (l_fn l) s else s"])
     simp_all

lemma same_env_emit_with:
  "(\<And>h s. same_env s (r h s)) \<Longrightarrow> same_env s (emit_with r og e s)"
  unfolding emit_with_def
  by (rule same_env_fold) (rule same_env_call_listener)

lemma same_env_timeoutHandler [simp]: "same_env s (timeoutHandler d a s)"
proof -
  let ?s1 = "s\<lparr>effects := effects s @ [EmitError (TimeoutError d a)]\<rparr>"
  have "same_env s ?s1" by (simp add: same_env_def)
  moreover have "same_env ?s1 (emit_with (run_error (TimeoutError d a)) ORequest EvError ?s1)"
    by (rule same_env_emit_with) simp
  ultimately show ?thesis
    unfolding timeoutHandler_def
    by (blast intro: same_env_trans same_env_prims)
qed

lemma same_env_once_cancel [simp]: "same_env s (snd r) \<Longrightarrow> same_env s (once_cancel og e r)"
  unfolding once_cancel_def by (erule same_env_trans) simp

lemma same_env_time [simp]:
  "same_env s (snd (timeConnect s))" "same_env s (snd (timeRequest s))"
  by (simp_all add: timeConnect_def timeRequest_def)

lemma same_env_socket_parts [simp]:
  "same_env s (socket_lookup isIP k s)"
  "same_env s (socket_connect isIP k s)"
  "same_env s (socket_secure k s)"
  "same_env s (socket_send k s)"
  by (simp_all add: socket_lookup_def socket_connect_def socket_secure_def socket_send_def)

lemma same_env_onSocket [simp]: "same_env s (onSocket isIP k s)"
proof -
  let ?s1 = "socket_lookup isIP k s"
  let ?s2 = "socket_connect isIP k ?s1"
  let ?s3 = "socket_secure k ?s2"
  have "same_env s ?s3"
    by (blast intro: same_env_trans same_env_socket_parts)
  then have "same_env s (if connecting k then ?s3 else s)"
    by simp
  then show ?thesis
    unfolding onSocket_def by (rule same_env_trans) simp
qed

lemma same_env_run [simp]: "same_env s (run isIP sig h s)"
  by (cases "(isIP, sig, h, s)" rule: run.cases) simp_all

lemma same_env_emit [simp]: "same_env s (emit isIP sig s)"
  unfolding emit_def by (rule same_env_emit_with) simp

lemma same_env_timer_turns [simp]:
  "same_env s (timeout_elapsed i s)" "same_env s (immediate_ran i s)"
proof -
  show "same_env s (timeout_elapsed i s)"
    by (simp add: timeout_elapsed_def same_env_def)
  let ?s1 = "s\<lparr>timers := (timers s)[i := (timers s ! i)\<lparr>immediate := Some Ran\<rparr>]\<rparr>"
  have "same_env s ?s1" by (simp add: same_env_def)
  then have "same_env s (timeoutHandler (delay (timers s ! i)) (args (timers s ! i)) ?s1)"
    by (rule same_env_trans) simp
  then show "same_env s (immediate_ran i s)"
    by (simp add: immediate_ran_def)
qed

lemma reentry_timedOut [simp]: "reentry (snd (timedOut dl opts s))"
  by (simp add: timedOut_def attach_response_def attach_socket_def attach_request_def
      request_setTimeout_def)

lemma reentry_step: "reentry s \<Longrightarrow> reentry (step isIP ev s)"
proof (cases ev)
  case (Attach dl opts)
  then show ?thesis by simp
next
  case CallCancel
  have "same_env s (cancelTimeouts s)" by simp
  with CallCancel show "reentry s \<Longrightarrow> ?thesis" by (simp add: same_env_def)
next
  case (Signal sig)
  have "same_env s (emit isIP sig s)" by simp
  with Signal show "reentry s \<Longrightarrow> ?thesis" by (simp add: same_env_def)
next
  case (TimeoutElapsed i)
  have "same_env s (timeout_elapsed i s)" by simp
  with TimeoutElapsed show "reentry s \<Longrightarrow> ?thesis" by (simp add: same_env_def)
next
  case (ImmediateRan i)
  have "same_env s (immediate_ran i s)" by simp
  with ImmediateRan show "reentry s \<Longrightarrow> ?thesis" by (simp add: same_env_def)
qed

lemma reentry_run_events: "reentry s \<Longrightarrow> reentry (run_events isIP evs s)"
  unfolding run_events_def
  by (induction evs arbitrary: s) (simp_all add: reentry_step)

lemma delay_for_simps [simp]:
  "delay_for dl ''request'' = request dl"
  "delay_for dl ''lookup'' = lookup dl"
  "delay_for dl ''connect'' = connect dl"
  "delay_for dl ''secureConnect'' = secureConnect dl"
  "delay_for dl ''send'' = send dl"
  "delay_for dl ''response'' = response dl"
  "delay_for dl ''socket'' = socket dl"
  by (simp_all add: delay_for_def)

lemma set_update_clear:
  "t \<in> set (xs[i := f (xs ! i)]) \<Longrightarrow> t \<in> set xs \<or> (\<exists>u \<in> set xs. t = f u)"
proof (cases "i < length xs")
  case True
  assume "t \<in> set (xs[i := f (xs ! i)])"
  then have "t \<in> insert (f (xs ! i)) (set xs)"
    using set_update_subset_insert by fastforce
  with True show ?thesis by auto
next
  case False
  assume "t \<in> set (xs[i := f (xs ! i)])"
  with False show ?thesis by (simp add: list_update_beyond)
qed

lemma subseteq_add_mset: "A \<subseteq># B \<Longrightarrow> A \<subseteq># add_mset x B"
  by (auto simp: subseteq_mset_def le_SucI)

lemma subseteq_mset_trans: "A \<subseteq># B \<Longrightarrow> B \<subseteq># C \<Longrightarrow> A \<subseteq># C"
  by (auto simp: subseteq_mset_def intro: le_trans)

lemma owned_simps [simp]:
  "owned (once og e f s) = add_mset (og, e, f) (owned s)"
  "owned (removeListener og e f s) = owned s"
  "owned (snd (addTimeout d a s)) = owned s"
  "owned (cancel i s) = owned s"
  "owned (s\<lparr>effects := x\<rparr>) = owned s"
  "owned (s\<lparr>timers := y\<rparr>) = owned s"
  by (simp_all add: owned_def)

lemma inv_once:
  "attached_inv s \<Longrightarrow> handler_ok (delays s) f \<Longrightarrow> attached_inv (once og e f s)"
  by (auto simp: attached_inv_def cover_def configured_def key_def intro: subseteq_add_mset)

lemma inv_removeListener: "attached_inv s \<Longrightarrow> attached_inv (removeListener og e f s)"
proof -
  assume a: "attached_inv s"
  have "installed (remove_last (is_listener og e f) (listeners s)) \<subseteq># installed (listeners s)"
    by (rule installed_remove_last_subset)
  with a have "installed (listeners (removeListener og e f s)) \<subseteq># owned (removeListener og e f s)"
    by (auto simp: attached_inv_def intro: subseteq_mset_trans)
  moreover have "configured (removeListener og e f s)"
    using a set_remove_last [of "is_listener og e f" "listeners s"]
    by (auto simp: attached_inv_def configured_def)
  moreover have "cover (removeListener og e f s)"
    using a by (simp add: attached_inv_def cover_def)
  ultimately show ?thesis
    by (simp add: attached_inv_def)
qed

lemma inv_addTimeout:
  "attached_inv s \<Longrightarrow> d \<noteq> None \<Longrightarrow> delay_for (delays s) a = d \<Longrightarrow>
     attached_inv (snd (addTimeout d a s))"
  by (auto simp: attached_inv_def cover_def configured_def less_Suc_eq)

lemma inv_cancel: "attached_inv s \<Longrightarrow> attached_inv (cancel i s)"
  by (auto simp: attached_inv_def cover_def configured_def dest!: set_update_clear)

lemma inv_effects: "attached_inv s \<Longrightarrow> attached_inv (s\<lparr>effects := x\<rparr>)"
  by (simp add: attached_inv_def cover_def configured_def)

lemma inv_abort: "attached_inv s \<Longrightarrow> attached_inv (abort s)"
  by (simp add: abort_def inv_effects)

lemma fold_invariant:
  assumes "P s" and "\<And>x s. x \<in> set xs \<Longrightarrow> P s \<Longrightarrow> P (f x s)"
  shows "P (fold f xs s)"
  using assms by (induction xs arbitrary: s) simp_all

subsection \<open>The loop over cancelers\<close>

lemma run_cancelers_fields [simp]:
  "handlers (fold run_canceler cs s) = handlers s"
  "cancelers (fold run_canceler cs s) = cancelers s"
  "effects (fold run_canceler cs s) = effects s"
  "length (timers (fold run_canceler cs s)) = length (timers s)"
proof -
  have "handlers (fold run_canceler cs s) = handlers s \<and> cancelers (fold run_canceler cs s) = cancelers s
    \<and> effects (fold run_canceler cs s) = effects s
    \<and> length (timers (fold run_canceler cs s)) = length (timers s)"
  proof (induction cs arbitrary: s)
    case Nil
    show ?case by simp
  next
    case (Cons c cs)
    show ?case
      using Cons [of "run_canceler c s"] by (cases c) simp_all
  qed
  then show "handlers (fold run_canceler cs s) = handlers s"
    and "cancelers (fold run_canceler cs s) = cancelers s"
    and "effects (fold run_canceler cs s) = effects s"
    and "length (timers (fold run_canceler cs s)) = length (timers s)"
    by simp_all
qed

lemma run_cancelers_timer:
  "j < length (timers s) \<Longrightarrow>
     timers (fold run_canceler cs s) ! j =
       (if Cancel j \<in> set cs then clear (timers s ! j) else timers s ! j)"
proof (induction cs arbitrary: s)
  case Nil
  show ?case by simp
next
  case (Cons c cs)
  show ?case
  proof (cases c)
    case (Cancel i)
    have "j < length (timers (cancel i s))"
      using Cons.prems by simp
    from Cons.IH [OF this] Cancel Cons.prems show ?thesis
      by (cases "i = j") (auto simp: nth_list_update)
  next
    case RemoveSocketTimeout
    have "j < length (timers (removeListener ORequest EvTimeout SocketTimeoutHandler s))"
      using Cons.prems by simp
    from Cons.IH [OF this] RemoveSocketTimeout show ?thesis
      by simp
  qed
qed

lemma run_cancelers_installed:
  "installed (listeners (fold run_canceler cs s)) =
     installed (listeners s)
       - replicate_mset (count_list cs RemoveSocketTimeout) (ORequest, EvTimeout, SocketTimeoutHandler)"
proof (induction cs arbitrary: s)
  case Nil
  show ?case by simp
next
  case (Cons c cs)
  show ?case
    using Cons [of "run_canceler c s"]
    by (cases c) (simp_all add: installed_remove_last releasable_def)
qed

lemma foreign_remove_last:
  "\<not> foreign f \<Longrightarrow>
     [l \<leftarrow> remove_last (is_listener og e f) ls. foreign (l_fn l)] = [l \<leftarrow> ls. foreign (l_fn l)]"
  by (rule filter_remove_last) (auto simp: is_listener_def)

lemma run_cancelers_foreign:
  "[l \<leftarrow> listeners (fold run_canceler cs s). foreign (l_fn l)] = [l \<leftarrow> listeners s. foreign (l_fn l)]"
proof (induction cs arbitrary: s)
  case Nil
  show ?case by simp
next
  case (Cons c cs)
  show ?case
    using Cons [of "run_canceler c s"]
    by (cases c) (simp_all add: foreign_remove_last)
qed

lemma run_cancelers_listeners_subset:
  "set (listeners (fold run_canceler cs s)) \<subseteq> set (listeners s)"
proof (induction cs arbitrary: s)
  case Nil
  show ?case by simp
next
  case (Cons c cs)
  show ?case
    using Cons [of "run_canceler c s"] set_remove_last [of "is_listener ORequest EvTimeout SocketTimeoutHandler" "listeners s"]
    by (cases c) auto
qed

subsection \<open>unhandleAll\<close>

lemma remove_handlers_simps [simp]:
  "remove_handlers [] s = s"
  "remove_handlers ((og, e, f) # hs) s = remove_handlers hs (removeListener og e f s)"
  by (simp_all add: remove_handlers_def)

lemma remove_handlers_fields [simp]:
  "timers (remove_handlers hs s) = timers s"
  "cancelers (remove_handlers hs s) = cancelers s"
  "effects (remove_handlers hs s) = effects s"
  "handlers (remove_handlers hs s) = handlers s"
  by (induction hs arbitrary: s; simp add: split_paired_all)+

lemma remove_handlers_installed:
  "installed (listeners s) \<subseteq># A + mset hs \<Longrightarrow>
     installed (listeners (remove_handlers hs s)) \<subseteq># A"
proof (induction hs arbitrary: s)
  case Nil
  then show ?case by simp
next
  case (Cons h hs)
  obtain og e f where h: "h = (og, e, f)"
    by (cases h) auto
  have "installed (listeners (removeListener og e f s)) \<subseteq># A + mset hs"
  proof (cases "releasable f")
    case True
    with Cons.prems h show ?thesis
      by (simp add: installed_remove_last subset_eq_diff_conv)
  next
    case False
    then have "(og, e, f) \<notin># installed (listeners s)"
      by (auto simp: installed_def key_def)
    then have "installed (listeners s) - {#(og, e, f)#} = installed (listeners s)"
      by (simp add: diff_single_trivial)
    moreover have "installed (listeners s) - {#(og, e, f)#} \<subseteq># A + mset hs"
      using Cons.prems h by (simp add: subset_eq_diff_conv)
    ultimately show ?thesis
      using False by (simp add: installed_remove_last)
  qed
  from Cons.IH [OF this] h show ?case by simp
qed

lemma remove_handlers_foreign:
  "[l \<leftarrow> listeners (remove_handlers hs s). foreign (l_fn l)] = [l \<leftarrow> listeners s. foreign (l_fn l)]"
    if "\<forall>h \<in> set hs. \<not> foreign (snd (snd h))"
  using that
proof (induction hs arbitrary: s)
  case Nil
  show ?case by simp
next
  case (Cons h hs)
  obtain og e f where h: "h = (og, e, f)"
    by (cases h) auto
  with Cons.prems have "\<not> foreign f" by simp
  then have "[l \<leftarrow> listeners (removeListener og e f s). foreign (l_fn l)] = [l \<leftarrow> listeners s. foreign (l_fn l)]"
    by (simp add: foreign_remove_last)
  with Cons h show ?case by simp
qed

lemma remove_handlers_subset: "set (listeners (remove_handlers hs s)) \<subseteq> set (listeners s)"
proof (induction hs arbitrary: s)
  case Nil
  show ?case by simp
next
  case (Cons h hs)
  obtain og e f where h: "h = (og, e, f)"
    by (cases h) auto
  show ?case
    using Cons.IH [of "removeListener og e f s"] h
      set_remove_last [of "is_listener og e f" "listeners s"]
    by auto
qed

lemma unhandleAll_eq: "unhandleAll s = (remove_handlers (handlers s) s)\<lparr>handlers := []\<rparr>"
  by (simp add: unhandleAll_def remove_handlers_def)

lemma cancelTimeouts_fields [simp]:
  "handlers (cancelTimeouts s) = []"
  "cancelers (cancelTimeouts s) = cancelers s"
  "effects (cancelTimeouts s) = effects s"
  "length (timers (cancelTimeouts s)) = length (timers s)"
  by (simp_all add: cancelTimeouts_def unhandleAll_eq)

lemma cancelTimeouts_timer:
  "j < length (timers s) \<Longrightarrow>
     timers (cancelTimeouts s) ! j =
       (if Cancel j \<in> set (cancelers s) then clear (timers s ! j) else timers s ! j)"
  by (simp add: cancelTimeouts_def unhandleAll_eq run_cancelers_timer)

lemma cancelTimeouts_listeners_subset: "set (listeners (cancelTimeouts s)) \<subseteq> set (listeners s)"
  unfolding cancelTimeouts_def unhandleAll_eq
  using remove_handlers_subset run_cancelers_listeners_subset by fastforce

lemma same_envD:
  "same_env s t \<Longrightarrow> delays t = delays s"
  "same_env s t \<Longrightarrow> reentry t = reentry s"
  "same_env s t \<Longrightarrow> options t = options s"
  "same_env s t \<Longrightarrow> socketPath t = socketPath s"
  by (simp_all add: same_env_def)

lemmas cancelTimeouts_env [simp] = same_env_cancelTimeouts [THEN same_envD(1)]
  same_env_cancelTimeouts [THEN same_envD(2)] same_env_cancelTimeouts [THEN same_envD(3)]
  same_env_cancelTimeouts [THEN same_envD(4)]

lemma cancelTimeouts_installed:
  assumes "installed (listeners s) \<subseteq># owned s"
  shows "installed (listeners (cancelTimeouts s)) = {#}"
proof -
  let ?s1 = "fold run_canceler (cancelers s) s"
  have "installed (listeners ?s1) \<subseteq># {#} + mset (handlers ?s1)"
    using assms by (simp add: run_cancelers_installed owned_def subset_eq_diff_conv)
  then have "installed (listeners (remove_handlers (handlers ?s1) ?s1)) \<subseteq># {#}"
    by (rule remove_handlers_installed)
  then show ?thesis
    by (simp add: cancelTimeouts_def unhandleAll_eq)
qed

lemma cancelTimeouts_quiescent:
  assumes "attached_inv s"
  shows "quiescent (cancelTimeouts s)"
proof -
  have "\<not> pending t" if "t \<in> set (timers (cancelTimeouts s))" for t
  proof -
    from that obtain j where j: "j < length (timers s)" "t = timers (cancelTimeouts s) ! j"
      by (auto simp: in_set_conv_nth)
    with assms have "Cancel j \<in> set (cancelers s)"
      by (simp add: attached_inv_def cover_def)
    with j show ?thesis
      by (simp add: cancelTimeouts_timer)
  qed
  moreover have "installed (listeners (cancelTimeouts s)) = {#}"
    using assms by (simp add: cancelTimeouts_installed attached_inv_def)
  ultimately show ?thesis
    by (simp add: quiescent_def installed_empty_iff)
qed

lemma inv_cancelTimeouts:
  assumes "attached_inv s"
  shows "attached_inv (cancelTimeouts s)"
proof -
  have "cover (cancelTimeouts s)"
    using assms by (simp add: attached_inv_def cover_def)
  moreover have "installed (listeners (cancelTimeouts s)) \<subseteq># owned (cancelTimeouts s)"
    using assms by (simp add: cancelTimeouts_installed attached_inv_def)
  moreover have "configured (cancelTimeouts s)"
  proof -
    have "delay t \<noteq> None \<and> delay_for (delays s) (args t) = delay t"
      if "t \<in> set (timers (cancelTimeouts s))" for t
    proof -
      from that obtain j where j: "j < length (timers s)" "t = timers (cancelTimeouts s) ! j"
        by (auto simp: in_set_conv_nth)
      then have "timers s ! j \<in> set (timers s)"
        by simp
      with assms have "delay (timers s ! j) \<noteq> None
          \<and> delay_for (delays s) (args (timers s ! j)) = delay (timers s ! j)"
        unfolding attached_inv_def configured_def by blast
      with j show ?thesis
        by (simp add: cancelTimeouts_timer)
    qed
    moreover have "handler_ok (delays s) (l_fn l)" if "l \<in> set (listeners (cancelTimeouts s))" for l
      using that assms cancelTimeouts_listeners_subset [of s]
      by (auto simp: attached_inv_def configured_def)
    ultimately show ?thesis
      by (simp add: configured_def)
  qed
  ultimately show ?thesis
    by (simp add: attached_inv_def)
qed

lemma quiescent_cancelTimeouts:
  assumes "quiescent s"
  shows "cancelTimeouts s = s"
proof -
  have c: "run_canceler c s = s" for c
  proof (cases c)
    case (Cancel i)
    have "(timers s)[i := clear (timers s ! i)] = timers s"
    proof (cases "i < length (timers s)")
      case True
      with assms have "\<not> pending (timers s ! i)"
        by (simp add: quiescent_def)
      then show ?thesis by simp
    next
      case False
      then show ?thesis by (simp add: list_update_beyond)
    qed
    with Cancel show ?thesis
      by (simp add: cancel_def clear_def)
  next
    case RemoveSocketTimeout
    have "\<not> list_ex (is_listener ORequest EvTimeout SocketTimeoutHandler) (listeners s)"
      using assms by (auto simp: quiescent_def list_ex_iff is_listener_def)
    with RemoveSocketTimeout show ?thesis
      by (simp add: removeListener_def remove_last_none)
  qed
  have "fold run_canceler cs s = s" for cs
    by (induction cs) (simp_all add: c)
  with assms show ?thesis
    by (simp add: cancelTimeouts_def unhandleAll_def quiescent_def)
qed

subsection \<open>The invariant of an attached request is kept by every listener\<close>

lemma inv_errorListener: "attached_inv s \<Longrightarrow> attached_inv (errorListener error s)"
  by (simp add: errorListener_def inv_cancelTimeouts)

lemma inv_call_returned: "attached_inv s \<Longrightarrow> attached_inv (call_returned s)"
  by (simp add: call_returned_def inv_cancelTimeouts)

lemma inv_run_error: "attached_inv s \<Longrightarrow> attached_inv (run_error error h s)"
  by (cases h) (simp_all add: inv_errorListener inv_cancel inv_cancelTimeouts inv_call_returned)

lemma inv_emit_with:
  assumes "attached_inv s"
    and "\<And>l t. l \<in> set (listeners s) \<Longrightarrow> attached_inv t \<Longrightarrow> delays t = delays s \<Longrightarrow>
           attached_inv (r (l_fn l) t) \<and> delays (r (l_fn l) t) = delays s"
  shows "attached_inv (emit_with r og e s) \<and> delays (emit_with r og e s) = delays s"
  unfolding emit_with_def
proof (rule fold_invariant [where P = "\<lambda>t. attached_inv t \<and> delays t = delays s"])
  show "attached_inv s \<and> delays s = delays s"
    using assms(1) by simp
next
  fix l t
  assume l: "l \<in> set [l \<leftarrow> listeners s. l_origin l = og \<and> l_event l = e]"
    and t: "attached_inv t \<and> delays t = delays s"
  let ?t1 = "if l_once l then removeListener (l_origin l) (l_event l) (l_fn l) t else t"
  have "attached_inv ?t1 \<and> delays ?t1 = delays s"
    using t by (simp add: inv_removeListener)
  with l assms(2) [of l ?t1]
  show "attached_inv (call_listener r l t) \<and> delays (call_listener r l t) = delays s"
    by (simp add: call_listener_def)
qed

lemma inv_timeoutHandler:
  assumes "attached_inv s"
  shows "attached_inv (timeoutHandler d a s)"
proof -
  let ?e = "TimeoutError d a"
  let ?s1 = "s\<lparr>effects := effects s @ [EmitError ?e]\<rparr>"
  have "attached_inv ?s1"
    using assms by (rule inv_effects)
  then have "attached_inv (emit_with (run_error ?e) ORequest EvError ?s1)
      \<and> delays (emit_with (run_error ?e) ORequest EvError ?s1) = delays ?s1"
    by (rule inv_emit_with) (simp add: inv_run_error same_env_run_error [THEN same_envD(1)])
  then show ?thesis
    by (simp add: timeoutHandler_def inv_abort)
qed

lemma inv_arm:
  "attached_inv s \<Longrightarrow> d \<noteq> None \<Longrightarrow> delay_for (delays s) a = d \<Longrightarrow>
     attached_inv (once_cancel og e (addTimeout d a s))"
  unfolding once_cancel_def
  by (rule inv_once) (simp_all add: inv_addTimeout)

lemma inv_socket_lookup: "attached_inv s \<Longrightarrow> attached_inv (socket_lookup isIP k s)"
  by (simp add: socket_lookup_def inv_arm)

lemma inv_socket_connect: "attached_inv s \<Longrightarrow> attached_inv (socket_connect isIP k s)"
  by (simp add: socket_connect_def timeConnect_def inv_arm inv_once)

lemma inv_socket_secure: "attached_inv s \<Longrightarrow> attached_inv (socket_secure k s)"
  by (simp add: socket_secure_def inv_once)

lemma inv_socket_send: "attached_inv s \<Longrightarrow> attached_inv (socket_send k s)"
  by (simp add: socket_send_def timeRequest_def inv_arm inv_once)

lemma inv_onSocket: "attached_inv s \<Longrightarrow> attached_inv (onSocket isIP k s)"
  by (simp add: onSocket_def inv_socket_lookup inv_socket_connect inv_socket_secure
      inv_socket_send)

lemma inv_run:
  "attached_inv s \<Longrightarrow> handler_ok (delays s) h \<Longrightarrow> attached_inv (run isIP sig h s)"
  by (cases "(isIP, sig, h, s)" rule: run.cases)
    (simp_all add: inv_run_error inv_cancel inv_cancelTimeouts inv_once inv_onSocket inv_arm
      timeConnect_def timeRequest_def inv_timeoutHandler inv_call_returned)

lemma inv_emit:
  assumes "attached_inv s"
  shows "attached_inv (emit isIP sig s)"
proof -
  have "attached_inv (emit_with (run isIP sig) (origin_of sig) (evname_of sig) s)
    \<and> delays (emit_with (run isIP sig) (origin_of sig) (evname_of sig) s) = delays s"
    using assms
  proof (rule inv_emit_with)
    fix l t
    assume "l \<in> set (listeners s)" "attached_inv t" "delays t = delays s"
    moreover from this assms have "handler_ok (delays t) (l_fn l)"
      by (simp add: attached_inv_def configured_def)
    ultimately show "attached_inv (run isIP sig (l_fn l) t) \<and> delays (run isIP sig (l_fn l) t) = delays s"
      by (simp add: inv_run same_env_run [THEN same_envD(1)])
  qed
  then show ?thesis
    by (simp add: emit_def)
qed

lemma inv_timers_update:
  assumes "attached_inv s" and "\<And>t. delay (f t) = delay t \<and> args (f t) = args t"
  shows "attached_inv (s\<lparr>timers := (timers s)[i := f (timers s ! i)]\<rparr>)"
  using assms
  by (auto simp: attached_inv_def cover_def configured_def dest!: set_update_clear)

lemma inv_timeout_elapsed: "attached_inv s \<Longrightarrow> attached_inv (timeout_elapsed i s)"
  unfolding timeout_elapsed_def
  using inv_timers_update [of s "\<lambda>t. t\<lparr>timeout := Ran, immediate := Some Scheduled\<rparr>" i]
  by simp

lemma inv_immediate_ran: "attached_inv s \<Longrightarrow> attached_inv (immediate_ran i s)"
  unfolding immediate_ran_def
  using inv_timers_update [of s "\<lambda>t. t\<lparr>immediate := Some Ran\<rparr>" i]
  by (simp add: inv_timeoutHandler)

subsection \<open>Before and at the call of the exported function\<close>

lemma unattached_init: "unattached (init others sp)"
  by (auto simp: unattached_def init_def)


lemma inv_timedOut:
  assumes "unattached s"
  shows "attached_inv (snd (timedOut dl opts s))"
proof -
  let ?s0 = "s\<lparr>reentry := True, delays := dl, options := opts, cancelers := [], handlers := []\<rparr>"
  let ?s1 = "emitter_on ORequest EvError OnError ?s0"
  let ?s2 = "once ORequest EvResponse OnResponse ?s1"
  let ?s3 = "attach_request ?s2"
  let ?s4 = "attach_socket ?s3"
  let ?s5 = "once ORequest EvSocket OnSocket ?s4"
  have foreign_ok: "handler_ok dl h" if "foreign h" for h
    using that by (cases h) simp_all
  have "installed (listeners s) = {#}"
    using assms by (auto simp: unattached_def installed_empty_iff)
  then have 1: "attached_inv ?s1"
    using assms by (auto simp: attached_inv_def cover_def owned_def configured_def unattached_def
        releasable_def foreign_ok)
  then have 2: "attached_inv ?s2"
    by (rule inv_once) simp
  then have 3: "attached_inv ?s3"
    unfolding attach_request_def by (simp add: inv_addTimeout)
  have d3: "delays ?s3 = dl"
    by (simp add: attach_request_def)
  have 4: "attached_inv ?s4"
  proof (cases "socket dl")
    case None
    with 3 d3 show ?thesis by (simp add: attach_socket_def)
  next
    case (Some n)
    with 3 d3 show ?thesis
      by (auto simp: attach_socket_def request_setTimeout_def attached_inv_def cover_def
          owned_def configured_def releasable_def key_def)
  qed
  then have 5: "attached_inv ?s5"
    by (rule inv_once) simp
  have "delays ?s5 = dl"
    by (simp add: attach_socket_def request_setTimeout_def d3)
  with 5 have "attached_inv (attach_response ?s5)"
    by (simp add: attach_response_def inv_once)
  with assms show ?thesis
    by (simp add: timedOut_def unattached_def)
qed

lemma run_Foreign [simp]: "run isIP sig (Foreign n) s = s"
  by (cases sig) simp_all

lemma run_ForeignCancel [simp]: "run isIP sig (ForeignCancel n) s = call_returned s"
  by (cases sig) simp_all

lemma foreign_cases: "foreign h \<Longrightarrow> (\<exists>n. h = Foreign n) \<or> (\<exists>n. h = ForeignCancel n)"
  by (cases h) simp_all

lemma run_foreign_unattached: "foreign h \<Longrightarrow> \<not> reentry s \<Longrightarrow> run isIP sig h s = s"
  by (auto dest: foreign_cases)

lemma unattached_removeListener: "unattached s \<Longrightarrow> unattached (removeListener og e f s)"
  using set_remove_last [of "is_listener og e f" "listeners s"]
  by (auto simp: unattached_def)

lemma unattached_emit:
  assumes "unattached s"
  shows "unattached (emit isIP sig s)"
  unfolding emit_def emit_with_def
proof (rule fold_invariant [where P = unattached])
  show "unattached s" by (rule assms)
next
  fix l t
  assume "l \<in> set [l \<leftarrow> listeners s. l_origin l = origin_of sig \<and> l_event l = evname_of sig]"
    and t: "unattached t"
  with assms have "foreign (l_fn l)"
    by (simp add: unattached_def)
  moreover from t have "\<not> reentry t"
    by (simp add: unattached_def)
  ultimately show "unattached (call_listener (run isIP sig) l t)"
    using t by (simp add: call_listener_def run_foreign_unattached unattached_removeListener)
qed

lemma reach_inv_step:
  assumes "reach_inv s"
  shows "reach_inv (step isIP ev s)"
proof (cases "reentry s")
  case True
  with assms have a: "attached_inv s"
    by (simp add: reach_inv_def)
  have "attached_inv (step isIP ev s)"
    using a True
    by (cases ev) (simp_all add: timedOut_def inv_cancelTimeouts inv_emit inv_timeout_elapsed
        inv_immediate_ran)
  with True show ?thesis
    by (simp add: reach_inv_def reentry_step)
next
  case False
  with assms have u: "unattached s"
    by (simp add: reach_inv_def)
  show ?thesis
  proof (cases ev)
    case (Attach dl opts)
    with u show ?thesis
      by (simp add: reach_inv_def inv_timedOut)
  next
    case CallCancel
    with False assms show ?thesis by simp
  next
    case (Signal sig)
    with u have "unattached (step isIP ev s)"
      by (simp add: unattached_emit)
    then show ?thesis
      by (simp add: reach_inv_def unattached_def)
  next
    case (TimeoutElapsed i)
    with u assms show ?thesis
      by (simp add: timeout_elapsed_def unattached_def)
  next
    case (ImmediateRan i)
    with u assms show ?thesis
      by (simp add: immediate_ran_def unattached_def)
  qed
qed

lemma reach_inv_run_events: "reach_inv s \<Longrightarrow> reach_inv (run_events isIP evs s)"
  unfolding run_events_def
  by (induction evs arbitrary: s) (simp_all add: reach_inv_step)

lemma reach_inv_init: "reach_inv (run_events isIP evs (init others sp))"
  by (rule reach_inv_run_events) (simp add: reach_inv_def unattached_init [unfolded unattached_def] unattached_init)


subsection \<open>Nothing happens once an attached request is quiescent\<close>






lemma attached_reachable:
  "attached_inv (run_events isIP (Attach dl opts # evs) (init others sp))"
  "reentry (run_events isIP (Attach dl opts # evs) (init others sp))"
proof -
  let ?s = "run_events isIP (Attach dl opts # evs) (init others sp)"
  have "?s = run_events isIP evs (snd (timedOut dl opts (init others sp)))"
    by (simp add: run_events_def)
  then show r: "reentry ?s"
    by (simp add: reentry_run_events)
  have "reach_inv ?s" by (rule reach_inv_init)
  with r show "attached_inv ?s"
    by (simp add: reach_inv_def)
qed


lemma cancelTimeouts_foreign:
  assumes "attached_inv s" "\<forall>h \<in> set (handlers s). \<not> foreign (snd (snd h))"
  shows "[l \<leftarrow> listeners (cancelTimeouts s). foreign (l_fn l)] = [l \<leftarrow> listeners s. foreign (l_fn l)]"
  using assms
  by (simp add: cancelTimeouts_def unhandleAll_eq remove_handlers_foreign run_cancelers_foreign)

subsection \<open>The error listener stays\<close>

lemma remove_last_keeps: "x \<in> set xs \<Longrightarrow> \<not> P x \<Longrightarrow> x \<in> set (remove_last P xs)"
  by (induction xs) auto

lemma kept_removeListener:
  "well_placed s \<Longrightarrow> f \<noteq> OnError \<Longrightarrow> well_placed (removeListener og e f s)"
  using set_remove_last [of "is_listener og e f" "listeners s"]
    remove_last_keeps [of error_listener "listeners s" "is_listener og e f"]
  by (auto simp: well_placed_def is_listener_def error_listener_def)

lemma kept_once:
  "well_placed s \<Longrightarrow> placed f og e True \<Longrightarrow> releasable f \<Longrightarrow> well_placed (once og e f s)"
  by (auto simp: well_placed_def place_ok_def)

lemma kept_addTimeout: "well_placed s \<Longrightarrow> well_placed (snd (addTimeout d a s))"
  by (simp add: well_placed_def)

lemma kept_cancel: "well_placed s \<Longrightarrow> well_placed (cancel i s)"
  by (simp add: well_placed_def)

lemma kept_effects: "well_placed s \<Longrightarrow> well_placed (s\<lparr>effects := x\<rparr>)"
  by (simp add: well_placed_def)

lemma kept_timers: "well_placed s \<Longrightarrow> well_placed (s\<lparr>timers := x\<rparr>)"
  by (simp add: well_placed_def)

lemma kept_run_cancelers: "well_placed s \<Longrightarrow> well_placed (fold run_canceler cs s)"
proof (induction cs arbitrary: s)
  case Nil
  then show ?case by simp
next
  case (Cons c cs)
  have "well_placed (run_canceler c s)"
    using Cons.prems by (cases c) (simp_all add: kept_cancel kept_removeListener)
  then show ?case
    by (simp add: Cons.IH)
qed

lemma kept_remove_handlers:
  "well_placed s \<Longrightarrow> \<forall>h \<in> set hs. releasable (snd (snd h)) \<Longrightarrow>
     well_placed (remove_handlers hs s)"
proof (induction hs arbitrary: s)
  case Nil
  then show ?case by simp
next
  case (Cons h hs)
  obtain og e f where h: "h = (og, e, f)"
    by (cases h) auto
  with Cons.prems have "well_placed (removeListener og e f s)"
    by (auto simp: kept_removeListener releasable_def)
  with Cons h show ?case by simp
qed

lemma kept_cancelTimeouts:
  assumes "well_placed s"
  shows "well_placed (cancelTimeouts s)"
proof -
  let ?s1 = "fold run_canceler (cancelers s) s"
  have 1: "well_placed ?s1"
    using assms by (rule kept_run_cancelers)
  then have "well_placed (remove_handlers (handlers ?s1) ?s1)"
    by (rule kept_remove_handlers) (use assms in \<open>simp add: well_placed_def\<close>)
  then show ?thesis
    by (simp add: cancelTimeouts_def unhandleAll_eq well_placed_def)
qed

lemma kept_call_returned: "well_placed s \<Longrightarrow> well_placed (call_returned s)"
  by (simp add: call_returned_def kept_cancelTimeouts)

lemma kept_run_error: "well_placed s \<Longrightarrow> well_placed (run_error error h s)"
  by (cases h) (simp_all add: errorListener_def kept_cancelTimeouts kept_cancel kept_call_returned)

lemma kept_emit_with:
  assumes "well_placed s" and "\<And>h t. well_placed t \<Longrightarrow> well_placed (r h t)"
  shows "well_placed (emit_with r og e s)"
  unfolding emit_with_def
proof (rule fold_invariant [where P = well_placed])
  show "well_placed s" by (rule assms)
next
  fix l t
  assume "l \<in> set [l \<leftarrow> listeners s. l_origin l = og \<and> l_event l = e]" and t: "well_placed t"
  with assms(1) have "l_once l \<longrightarrow> l_fn l \<noteq> OnError"
    by (auto simp: well_placed_def place_ok_def)
  with t show "well_placed (call_listener r l t)"
    by (simp add: call_listener_def assms(2) kept_removeListener)
qed

lemma kept_timeoutHandler: "well_placed s \<Longrightarrow> well_placed (timeoutHandler d a s)"
  unfolding timeoutHandler_def abort_def
  by (intro kept_effects kept_emit_with kept_run_error)

lemma kept_arm:
  "well_placed s \<Longrightarrow> placed (CancelTimer (length (timers s))) og e True \<Longrightarrow>
     well_placed (once_cancel og e (addTimeout d a s))"
  by (simp add: once_cancel_def kept_once kept_addTimeout releasable_def)

lemma kept_onSocket: "well_placed s \<Longrightarrow> well_placed (onSocket isIP k s)"
  by (simp add: onSocket_def socket_lookup_def socket_connect_def socket_secure_def
      socket_send_def timeConnect_def timeRequest_def kept_arm kept_once releasable_def)

lemma kept_run: "well_placed s \<Longrightarrow> well_placed (run isIP sig h s)"
  by (cases "(isIP, sig, h, s)" rule: run.cases)
    (simp_all add: kept_run_error kept_cancel kept_cancelTimeouts kept_once kept_onSocket
      kept_arm timeConnect_def timeRequest_def kept_timeoutHandler releasable_def
      kept_call_returned)

lemma kept_timedOut: "unattached s \<Longrightarrow> well_placed (snd (timedOut dl opts s))"
proof -
  assume u: "unattached s"
  have "place_ok l" if "foreign (l_fn l)" for l
    using that by (cases "l_fn l") (simp_all add: place_ok_def)
  with u show ?thesis
    by (auto simp: timedOut_def unattached_def well_placed_def attach_response_def
      attach_socket_def attach_request_def request_setTimeout_def error_listener_def
      place_ok_def releasable_def)
qed

lemma kept_step: "well_placed s \<Longrightarrow> reentry s \<Longrightarrow> well_placed (step isIP ev s)"
  by (cases ev)
    (simp_all add: timedOut_def kept_cancelTimeouts emit_def kept_emit_with kept_run
      timeout_elapsed_def immediate_ran_def kept_timers kept_timeoutHandler)

lemma kept_run_events:
  "well_placed s \<Longrightarrow> reentry s \<Longrightarrow> well_placed (run_events isIP evs s)"
  unfolding run_events_def
  by (induction evs arbitrary: s) (simp_all add: kept_step reentry_step)

lemma kept_reachable: "well_placed (run_events isIP (Attach dl opts # evs) (init others sp))"
proof -
  have "well_placed (run_events isIP evs (snd (timedOut dl opts (init others sp))))"
    by (intro kept_run_events kept_timedOut unattached_init reentry_timedOut)
  then show ?thesis
    by (simp add: run_events_def)
qed


subsection \<open>No listener that calls the returned function appears by itself\<close>

lemma inert_subset:
  "inert_others s \<Longrightarrow> set (listeners t) \<subseteq> set (listeners s) \<Longrightarrow> inert_others t"
  by (auto simp: inert_others_def)

lemma inert_removeListener: "inert_others s \<Longrightarrow> inert_others (removeListener og e f s)"
  using set_remove_last [of "is_listener og e f" "listeners s"]
  by (auto simp: inert_others_def)

lemma inert_once: "inert_others s \<Longrightarrow> \<not> cancelling f \<Longrightarrow> inert_others (once og e f s)"
  by (auto simp: inert_others_def)

lemma inert_addTimeout: "inert_others s \<Longrightarrow> inert_others (snd (addTimeout d a s))"
  by (simp add: inert_others_def)

lemma inert_cancel: "inert_others s \<Longrightarrow> inert_others (cancel i s)"
  by (simp add: inert_others_def)

lemma inert_effects: "inert_others s \<Longrightarrow> inert_others (s\<lparr>effects := x\<rparr>)"
  by (simp add: inert_others_def)

lemma inert_timers: "inert_others s \<Longrightarrow> inert_others (s\<lparr>timers := x\<rparr>)"
  by (simp add: inert_others_def)

lemma inert_cancelTimeouts: "inert_others s \<Longrightarrow> inert_others (cancelTimeouts s)"
  by (erule inert_subset) (rule cancelTimeouts_listeners_subset)

lemma inert_call_returned: "inert_others s \<Longrightarrow> inert_others (call_returned s)"
  by (simp add: call_returned_def inert_cancelTimeouts)

lemma inert_run_error: "inert_others s \<Longrightarrow> inert_others (run_error error h s)"
  by (cases h)
    (simp_all add: errorListener_def inert_cancelTimeouts inert_cancel inert_call_returned)

lemma inert_emit_with:
  assumes "inert_others s" and "\<And>h t. inert_others t \<Longrightarrow> inert_others (r h t)"
  shows "inert_others (emit_with r og e s)"
  unfolding emit_with_def
proof (rule fold_invariant [where P = inert_others])
  show "inert_others s" by (rule assms)
next
  fix l t
  assume "inert_others t"
  then show "inert_others (call_listener r l t)"
    by (simp add: call_listener_def assms(2) inert_removeListener)
qed

lemma inert_timeoutHandler: "inert_others s \<Longrightarrow> inert_others (timeoutHandler d a s)"
  unfolding timeoutHandler_def abort_def
  by (intro inert_effects inert_emit_with inert_run_error)

lemma inert_arm: "inert_others s \<Longrightarrow> inert_others (once_cancel og e (addTimeout d a s))"
  by (simp add: once_cancel_def inert_once inert_addTimeout)

lemma inert_onSocket: "inert_others s \<Longrightarrow> inert_others (onSocket isIP k s)"
  by (simp add: onSocket_def socket_lookup_def socket_connect_def socket_secure_def
      socket_send_def timeConnect_def timeRequest_def inert_arm inert_once)

lemma inert_run: "inert_others s \<Longrightarrow> inert_others (run isIP sig h s)"
  by (cases "(isIP, sig, h, s)" rule: run.cases)
    (simp_all add: inert_run_error inert_cancel inert_cancelTimeouts inert_once inert_onSocket
      inert_arm timeConnect_def timeRequest_def inert_timeoutHandler inert_call_returned)

lemma inert_timedOut: "inert_others s \<Longrightarrow> inert_others (snd (timedOut dl opts s))"
  by (auto simp: timedOut_def inert_others_def attach_response_def attach_socket_def
      attach_request_def request_setTimeout_def)

lemma inert_step: "inert_others s \<Longrightarrow> inert_others (step isIP ev s)"
  by (cases ev)
    (simp_all add: inert_timedOut inert_cancelTimeouts emit_def inert_emit_with inert_run
      timeout_elapsed_def immediate_ran_def inert_timers inert_timeoutHandler)

lemma inert_run_events: "inert_others s \<Longrightarrow> inert_others (run_events isIP evs s)"
  unfolding run_events_def
  by (induction evs arbitrary: s) (simp_all add: inert_step)

lemma inert_init: "inert_others (init others sp)"
  by (auto simp: inert_others_def init_def)

lemma inert_reachable: "inert_others (run_events isIP evs (init others sp))"
  by (intro inert_run_events inert_init)

lemma inert_foreign: "inert_others s \<Longrightarrow> l \<in> set (listeners s) \<Longrightarrow> foreign (l_fn l) \<Longrightarrow> \<exists>n. l_fn l = Foreign n"
  by (cases "l_fn l") (auto simp: inert_others_def)

subsection \<open>Which turn creates which timer\<close>

lemma armed_prims [simp]:
  "armed (emitter_on og e f s) = armed s"
  "armed (emitter_once og e f s) = armed s"
  "armed (once og e f s) = armed s"
  "armed (removeListener og e f s) = armed s"
  "armed (snd (addTimeout d a s)) = armed s @ [(a, d)]"
  "armed (abort s) = armed s"
  "armed (s\<lparr>effects := x\<rparr>) = armed s"
  by (simp_all add: armed_def)

lemma armed_update:
  assumes "\<And>t. args (f t) = args t \<and> delay (f t) = delay t"
  shows "map (\<lambda>t. (args t, delay t)) (xs[i := f (xs ! i)]) = map (\<lambda>t. (args t, delay t)) xs"
  by (cases "i < length xs") (auto simp: nth_list_update assms list_update_beyond intro!: nth_equalityI)

lemma armed_cancel [simp]: "armed (cancel i s) = armed s"
  by (simp add: armed_def armed_update)

lemma armed_run_cancelers [simp]: "armed (fold run_canceler cs s) = armed s"
proof (induction cs arbitrary: s)
  case Nil
  show ?case by simp
next
  case (Cons c cs)
  show ?case
    using Cons [of "run_canceler c s"] by (cases c) simp_all
qed

lemma armed_cancelTimeouts [simp]: "armed (cancelTimeouts s) = armed s"
proof -
  have "armed (unhandleAll t) = armed t" for t
    by (simp add: unhandleAll_eq armed_def)
  then show ?thesis
    by (simp add: cancelTimeouts_def)
qed

lemma armed_call_returned [simp]: "armed (call_returned s) = armed s"
  by (simp add: call_returned_def)

lemma armed_run_error [simp]: "armed (run_error error h s) = armed s"
  by (cases h) (simp_all add: errorListener_def)

lemma armed_timeoutHandler [simp]: "armed (timeoutHandler d a s) = armed s"
proof -
  let ?s1 = "s\<lparr>effects := effects s @ [EmitError (TimeoutError d a)]\<rparr>"
  have "armed (emit_with (run_error (TimeoutError d a)) ORequest EvError ?s1) = armed s"
    unfolding emit_with_def
    by (rule fold_invariant [where P = "\<lambda>t. armed t = armed s"])
      (simp_all add: call_listener_def)
  then show ?thesis
    by (simp add: timeoutHandler_def)
qed

lemma once_cancel_fields [simp]:
  "reentry (once_cancel og e r) = reentry (snd r)"
  "socketPath (once_cancel og e r) = socketPath (snd r)"
  "delays (once_cancel og e r) = delays (snd r)"
  "options (once_cancel og e r) = options (snd r)"
  "cancelers (once_cancel og e r) = cancelers (snd r)"
  "handlers (once_cancel og e r) = handlers (snd r) @ [(og, e, CancelTimer (fst r))]"
  "timers (once_cancel og e r) = timers (snd r)"
  "effects (once_cancel og e r) = effects (snd r)"
  "listeners (once_cancel og e r) =
     listeners (snd r) @ [\<lparr>l_origin = og, l_event = e, l_fn = CancelTimer (fst r), l_once = True\<rparr>]"
  by (simp_all add: once_cancel_def)

lemmas socket_lookup_env [simp] = same_env_socket_parts(1) [THEN same_envD(1)]
  same_env_socket_parts(1) [THEN same_envD(3)] same_env_socket_parts(1) [THEN same_envD(4)]

lemmas socket_connect_env [simp] = same_env_socket_parts(2) [THEN same_envD(1)]
  same_env_socket_parts(2) [THEN same_envD(3)] same_env_socket_parts(2) [THEN same_envD(4)]

lemmas socket_secure_env [simp] = same_env_socket_parts(3) [THEN same_envD(1)]
  same_env_socket_parts(3) [THEN same_envD(3)] same_env_socket_parts(3) [THEN same_envD(4)]

lemma armed_socket_parts:
  "armed (socket_lookup isIP k s) = armed s @
     (if lookup (delays s) \<noteq> None \<and> \<not> truthy (socketPath s)
         \<and> isIP_of isIP (target (options s)) = 0 \<and> address k = None
      then [(''lookup'', lookup (delays s))] else [])"
  "armed (socket_connect isIP k s) = armed s @
     (if connect (delays s) \<noteq> None
         \<and> (truthy (socketPath s) \<or> isIP_of isIP (target (options s)) \<noteq> 0)
      then [(''connect'', connect (delays s))] else [])"
  "armed (socket_secure k s) = armed s"
  "armed (socket_send k s) = armed s @
     (if send (delays s) \<noteq> None \<and> \<not> connecting k then [(''send'', send (delays s))] else [])"
  by (simp_all add: socket_lookup_def socket_connect_def socket_secure_def socket_send_def
      timeConnect_def timeRequest_def once_cancel_def)

lemma armed_arm [simp]: "armed (once_cancel og e (addTimeout d a s)) = armed s @ [(a, d)]"
  by (simp add: once_cancel_def)

lemma armed_onSocket: "armed (onSocket isIP k s) = armed s @ created_onSocket isIP k s"
proof (cases "connecting k")
  case True
  then show ?thesis
    by (simp add: onSocket_def armed_socket_parts created_onSocket_def)
next
  case False
  then show ?thesis
    by (simp add: onSocket_def armed_socket_parts created_onSocket_def)
qed

lemma armed_errorListener [simp]: "armed (errorListener error s) = armed s"
  by (simp add: errorListener_def)

lemma armed_run: "armed (run isIP sig h s) = armed s @ created isIP sig h s"
proof (cases sig)
  case (ReqError error)
  then show ?thesis by (cases h) simp_all
next
  case (ReqResponse r)
  then show ?thesis by (cases h) simp_all
next
  case (ReqSocket k)
  then show ?thesis by (cases h) (simp_all add: armed_onSocket)
next
  case ReqUploadComplete
  then show ?thesis by (cases h) simp_all
next
  case ReqTimeout
  then show ?thesis by (cases h) simp_all
next
  case (SockLookup k error)
  then show ?thesis by (cases error; cases h) (simp_all add: timeConnect_def)
next
  case (SockConnect k)
  then show ?thesis by (cases h) (simp_all add: timeRequest_def)
next
  case (SockSecureConnect k)
  then show ?thesis by (cases h) simp_all
next
  case (RespEnd r)
  then show ?thesis by (cases h) simp_all
qed

lemma created_env: "same_env s t \<Longrightarrow> created isIP sig h t = created isIP sig h s"
  by (cases "(isIP, sig, h, s)" rule: created.cases)
    (simp_all add: created_onSocket_def same_env_def)

lemma armed_call_listeners:
  "same_env s t \<Longrightarrow>
     armed (fold (call_listener (run isIP sig)) ls t)
       = armed t @ concat (map (\<lambda>l. created isIP sig (l_fn l) s) ls)"
proof (induction ls arbitrary: t)
  case Nil
  show ?case by simp
next
  case (Cons l ls)
  let ?t1 = "if l_once l then removeListener (l_origin l) (l_event l) (l_fn l) t else t"
  have 1: "same_env s ?t1"
    using Cons.prems by (auto intro: same_env_trans)
  then have 2: "same_env s (call_listener (run isIP sig) l t)"
    unfolding call_listener_def by (rule same_env_trans) simp
  have "armed (call_listener (run isIP sig) l t) = armed ?t1 @ created isIP sig (l_fn l) ?t1"
    by (simp only: call_listener_def armed_run)
  also have "\<dots> = armed t @ created isIP sig (l_fn l) s"
    using created_env [OF 1] by simp
  finally show ?case
    using Cons.IH [OF 2] by simp
qed

lemma armed_emit: "armed (emit isIP sig s) = armed s @ created_by_signal isIP sig s"
  by (simp add: emit_def emit_with_def created_by_signal_def armed_call_listeners)

lemma armed_timedOut:
  "armed (snd (timedOut dl opts s)) = armed s @ created_by isIP (Attach dl opts) s"
  by (simp add: timedOut_def attach_response_def attach_socket_def attach_request_def
      request_setTimeout_def armed_def)

lemma armed_step: "armed (step isIP ev s) = armed s @ created_by isIP ev s"
proof (cases ev)
  case (Attach dl opts)
  then show ?thesis
    using armed_timedOut [of dl opts s isIP] by simp
next
  case CallCancel
  then show ?thesis by simp
next
  case (Signal sig)
  then show ?thesis by (simp add: armed_emit)
next
  case (TimeoutElapsed i)
  then show ?thesis
    using armed_update [of "\<lambda>t. t\<lparr>timeout := Ran, immediate := Some Scheduled\<rparr>" "timers s" i]
    by (simp add: timeout_elapsed_def armed_def)
next
  case (ImmediateRan i)
  have "armed (s\<lparr>timers := (timers s)[i := (timers s ! i)\<lparr>immediate := Some Ran\<rparr>]\<rparr>) = armed s"
    using armed_update [of "\<lambda>t. t\<lparr>immediate := Some Ran\<rparr>" "timers s" i]
    by (simp add: armed_def)
  with ImmediateRan show ?thesis
    by (simp add: immediate_ran_def)
qed

subsection \<open>A timer that is no longer pending never changes\<close>

lemma frozen_prims:
  "frozen i T s \<Longrightarrow> frozen i T (once og e f s)"
  "frozen i T s \<Longrightarrow> frozen i T (removeListener og e f s)"
  "frozen i T s \<Longrightarrow> frozen i T (snd (addTimeout d a s))"
  "frozen i T s \<Longrightarrow> frozen i T (s\<lparr>effects := x\<rparr>)"
  "frozen i T s \<Longrightarrow> frozen i T (abort s)"
  by (simp_all add: frozen_def nth_append)

lemma frozen_cancel: "frozen i T s \<Longrightarrow> frozen i T (cancel j s)"
  by (cases "i = j") (auto simp: frozen_def)

lemma frozen_cancelTimeouts: "frozen i T s \<Longrightarrow> frozen i T (cancelTimeouts s)"
  by (simp add: frozen_def cancelTimeouts_timer)

lemma frozen_call_returned: "frozen i T s \<Longrightarrow> frozen i T (call_returned s)"
  by (simp add: call_returned_def frozen_cancelTimeouts)

lemma frozen_run_error: "frozen i T s \<Longrightarrow> frozen i T (run_error error h s)"
  by (cases h)
    (simp_all add: errorListener_def frozen_cancel frozen_cancelTimeouts frozen_call_returned)

lemma frozen_emit_with:
  assumes "frozen i T s" and "\<And>h t. frozen i T t \<Longrightarrow> frozen i T (r h t)"
  shows "frozen i T (emit_with r og e s)"
  unfolding emit_with_def
  by (rule fold_invariant [where P = "frozen i T"])
    (simp_all add: assms call_listener_def frozen_prims)

lemma frozen_timeoutHandler: "frozen i T s \<Longrightarrow> frozen i T (timeoutHandler d a s)"
  unfolding timeoutHandler_def
  by (intro frozen_prims(5) frozen_emit_with frozen_prims(4) frozen_run_error)

lemma frozen_arm: "frozen i T s \<Longrightarrow> frozen i T (once_cancel og e (addTimeout d a s))"
  by (simp add: once_cancel_def frozen_prims)

lemma frozen_onSocket: "frozen i T s \<Longrightarrow> frozen i T (onSocket isIP k s)"
  by (simp add: onSocket_def socket_lookup_def socket_connect_def socket_secure_def
      socket_send_def timeConnect_def timeRequest_def frozen_arm frozen_prims)

lemma frozen_run: "frozen i T s \<Longrightarrow> frozen i T (run isIP sig h s)"
  by (cases "(isIP, sig, h, s)" rule: run.cases)
    (simp_all add: frozen_run_error frozen_cancel frozen_cancelTimeouts frozen_prims
      frozen_onSocket frozen_arm timeConnect_def timeRequest_def frozen_timeoutHandler
      frozen_call_returned)

lemma frozen_emit: "frozen i T s \<Longrightarrow> frozen i T (emit isIP sig s)"
  unfolding emit_def by (rule frozen_emit_with) (simp_all add: frozen_run)

lemma frozen_timeout_elapsed: "frozen i T s \<Longrightarrow> frozen i T (timeout_elapsed j s)"
  by (cases "i = j") (auto simp: frozen_def timeout_elapsed_def pending_def)

lemma frozen_immediate_ran: "frozen i T s \<Longrightarrow> frozen i T (immediate_ran j s)"
proof -
  assume f: "frozen i T s"
  show ?thesis
  proof (cases "j < length (timers s) \<and> immediate (timers s ! j) = Some Scheduled")
    case True
    with f have "i \<noteq> j"
      by (auto simp: frozen_def pending_def)
    with f have "frozen i T (s\<lparr>timers := (timers s)[j := (timers s ! j)\<lparr>immediate := Some Ran\<rparr>]\<rparr>)"
      by (simp add: frozen_def)
    with True show ?thesis
      by (simp add: immediate_ran_def frozen_timeoutHandler)
  next
    case False
    with f show ?thesis
      by (auto simp: immediate_ran_def)
  qed
qed

lemma frozen_timedOut: "frozen i T s \<Longrightarrow> frozen i T (snd (timedOut dl opts s))"
  by (simp add: timedOut_def attach_response_def attach_socket_def attach_request_def
      request_setTimeout_def frozen_def nth_append)

lemma frozen_step: "frozen i T s \<Longrightarrow> frozen i T (step isIP ev s)"
  by (cases ev)
    (simp_all add: frozen_timedOut frozen_cancelTimeouts frozen_emit frozen_timeout_elapsed
      frozen_immediate_ran)

lemma frozen_run_events: "frozen i T s \<Longrightarrow> frozen i T (run_events isIP evs s)"
  unfolding run_events_def
  by (induction evs arbitrary: s) (simp_all add: frozen_step)

subsection \<open>Every pending phase timer has its cancel subscribed\<close>

lemma guarded_once: "guarded s \<Longrightarrow> guarded (once og e f s)"
  by (auto simp: guarded_def guard_def)

lemma guarded_effects: "guarded s \<Longrightarrow> guarded (s\<lparr>effects := x\<rparr>)"
  by (simp add: guarded_def guard_def)

lemma guarded_abort: "guarded s \<Longrightarrow> guarded (abort s)"
  by (simp add: guarded_def guard_def)

lemma guard_removeListener:
  assumes "guard i s" and "f \<noteq> CancelTimer i"
  shows "guard i (removeListener og e f s)"
proof -
  have "l \<in> set (remove_last (is_listener og e f) (listeners s))"
    if "l \<in> set (listeners s)" "l_fn l = CancelTimer i" for l
    using that assms(2) by (intro remove_last_keeps) (auto simp: is_listener_def)
  with assms(1) show ?thesis
    unfolding guard_def by (auto simp del: remove_last.simps)
qed

lemma guarded_removeListener:
  "guarded s \<Longrightarrow> \<forall>j. f \<noteq> CancelTimer j \<Longrightarrow> guarded (removeListener og e f s)"
  by (simp add: guarded_def guard_removeListener)

lemma guard_cancel: "i < length (timers s) \<Longrightarrow> guard i s \<Longrightarrow> guard i (cancel j s)"
  by (cases "i = j") (auto simp: guard_def)

lemma guarded_cancel: "guarded s \<Longrightarrow> guarded (cancel j s)"
  by (simp add: guarded_def guard_cancel)

lemma guarded_self_cancel:
  assumes "guarded s"
  shows "guarded (cancel j (removeListener og e (CancelTimer j) s))"
proof -
  have "guard i (cancel j (removeListener og e (CancelTimer j) s))" if "i < length (timers s)" for i
  proof (cases "i = j")
    case True
    with that show ?thesis by (simp add: guard_def)
  next
    case False
    with assms that have "guard i (removeListener og e (CancelTimer j) s)"
      by (simp add: guarded_def guard_removeListener)
    with that show ?thesis
      by (simp add: guard_cancel)
  qed
  then show ?thesis
    by (simp add: guarded_def)
qed

lemma guarded_arm:
  assumes "guarded s" and "cancels_on a og e"
  shows "guarded (once_cancel og e (addTimeout d a s))"
proof -
  have "guard i (once_cancel og e (addTimeout d a s))" if "i < Suc (length (timers s))" for i
  proof (cases "i = length (timers s)")
    case True
    with assms(2) show ?thesis by (simp add: guard_def)
  next
    case False
    with that have "i < length (timers s)" by simp
    with assms(1) show ?thesis
      by (auto simp: guarded_def guard_def nth_append)
  qed
  then show ?thesis
    by (simp add: guarded_def)
qed

lemma guarded_request: "guarded s \<Longrightarrow> guarded (snd (addTimeout d ''request'' s))"
  by (auto simp: guarded_def guard_def nth_append less_Suc_eq)

lemma guarded_quiescent: "quiescent s \<Longrightarrow> guarded s"
  by (simp add: guarded_def guard_def quiescent_def)

lemma guarded_cancelTimeouts: "attached_inv s \<Longrightarrow> guarded (cancelTimeouts s)"
  by (simp add: guarded_quiescent cancelTimeouts_quiescent)

lemma guarded_timers_update:
  assumes "guarded s" and "\<And>t. args (f t) = args t" and "pending (f (timers s ! j)) \<Longrightarrow> pending (timers s ! j)"
  shows "guarded (s\<lparr>timers := (timers s)[j := f (timers s ! j)]\<rparr>)"
proof -
  have "guard i (s\<lparr>timers := (timers s)[j := f (timers s ! j)]\<rparr>)" if "i < length (timers s)" for i
    using that assms by (cases "i = j") (auto simp: guarded_def guard_def)
  then show ?thesis
    by (simp add: guarded_def)
qed

lemma safe_cancel: "safe dl s \<Longrightarrow> safe dl (cancel i s)"
  by (simp add: safe_def inv_cancel guarded_cancel)

lemma safe_cancelTimeouts: "safe dl s \<Longrightarrow> safe dl (cancelTimeouts s)"
  by (simp add: safe_def inv_cancelTimeouts guarded_cancelTimeouts)

lemma safe_call_returned: "safe dl s \<Longrightarrow> safe dl (call_returned s)"
  by (simp add: call_returned_def safe_cancelTimeouts)

lemma safe_run_error: "safe dl s \<Longrightarrow> safe dl (run_error error h s)"
  by (cases h)
    (simp_all add: errorListener_def safe_cancel safe_cancelTimeouts safe_call_returned)

lemma safe_call_listener:
  assumes "safe dl t"
    and r: "\<And>t. safe dl t \<Longrightarrow> safe dl (r (l_fn l) t)"
    and c: "\<And>j t. r (CancelTimer j) t = cancel j t"
  shows "safe dl (call_listener r l t)"
proof (cases "l_once l")
  case False
  with assms show ?thesis by (simp add: call_listener_def)
next
  case True
  let ?t1 = "removeListener (l_origin l) (l_event l) (l_fn l) t"
  have a: "attached_inv ?t1" "delays ?t1 = dl"
    using assms(1) by (simp_all add: safe_def inv_removeListener)
  show ?thesis
  proof (cases "\<exists>j. l_fn l = CancelTimer j")
    case True
    then obtain j where j: "l_fn l = CancelTimer j" by blast
    have "guarded (cancel j ?t1)"
      using assms(1) unfolding j by (intro guarded_self_cancel) (simp add: safe_def)
    with a j \<open>l_once l\<close> show ?thesis
      by (simp add: call_listener_def c safe_def inv_cancel)
  next
    case False
    with assms(1) have "guarded ?t1"
      by (intro guarded_removeListener) (simp_all add: safe_def)
    with a have "safe dl ?t1"
      by (simp add: safe_def)
    with r [of ?t1] \<open>l_once l\<close> show ?thesis
      by (simp add: call_listener_def)
  qed
qed

lemma safe_timeoutHandler:
  assumes "safe dl s"
  shows "safe dl (timeoutHandler d a s)"
proof -
  let ?e = "TimeoutError d a"
  let ?s1 = "s\<lparr>effects := effects s @ [EmitError ?e]\<rparr>"
  have "safe dl ?s1"
    using assms by (simp add: safe_def inv_effects guarded_effects)
  then have "safe dl (emit_with (run_error ?e) ORequest EvError ?s1)"
    unfolding emit_with_def
    by (rule fold_invariant) (simp add: safe_call_listener safe_run_error)
  then show ?thesis
    by (simp add: timeoutHandler_def safe_def inv_abort guarded_abort)
qed

lemma safe_once: "safe dl s \<Longrightarrow> handler_ok dl f \<Longrightarrow> safe dl (once og e f s)"
  by (simp add: safe_def inv_once guarded_once)

lemma safe_arm:
  "safe dl s \<Longrightarrow> d \<noteq> None \<Longrightarrow> delay_for dl a = d \<Longrightarrow> cancels_on a og e \<Longrightarrow>
     safe dl (once_cancel og e (addTimeout d a s))"
  by (simp add: safe_def inv_arm guarded_arm)

lemma safe_socket_parts:
  "safe dl s \<Longrightarrow> safe dl (socket_lookup isIP k s)"
  "safe dl s \<Longrightarrow> safe dl (socket_connect isIP k s)"
  "safe dl s \<Longrightarrow> safe dl (socket_secure k s)"
  "safe dl s \<Longrightarrow> safe dl (socket_send k s)"
proof -
  assume s: "safe dl s"
  then have d: "delays s = dl" by (simp add: safe_def)
  show "safe dl (socket_lookup isIP k s)"
    using s d by (auto simp: socket_lookup_def cancels_on_def intro!: safe_arm)
  show "safe dl (socket_connect isIP k s)"
    using s d by (auto simp: socket_connect_def timeConnect_def cancels_on_def
        intro!: safe_arm safe_once)
  show "safe dl (socket_secure k s)"
    using s d by (auto simp: socket_secure_def intro!: safe_once)
  show "safe dl (socket_send k s)"
    using s d by (auto simp: socket_send_def timeRequest_def cancels_on_def
        intro!: safe_arm safe_once)
qed

lemma safe_onSocket: "safe dl s \<Longrightarrow> safe dl (onSocket isIP k s)"
  by (simp add: onSocket_def safe_socket_parts)

lemma safe_run:
  assumes "safe dl s" and "handler_ok dl h"
  shows "safe dl (run isIP sig h s)"
proof -
  from assms(1) have d: "delays s = dl" by (simp add: safe_def)
  show ?thesis
    using assms d
    by (cases "(isIP, sig, h, s)" rule: run.cases)
      (auto simp: safe_run_error safe_cancel safe_cancelTimeouts safe_onSocket
        timeConnect_def timeRequest_def safe_timeoutHandler cancels_on_def
        safe_call_returned
        intro!: safe_arm safe_once)
qed

lemma run_cancel: "run isIP sig (CancelTimer j) t = cancel j t"
  by (cases sig) simp_all

lemma safe_emit:
  assumes "safe dl s"
  shows "safe dl (emit isIP sig s)"
  unfolding emit_def emit_with_def
proof (rule fold_invariant [where P = "safe dl"])
  show "safe dl s" by (rule assms)
next
  fix l t
  assume "l \<in> set [l \<leftarrow> listeners s. l_origin l = origin_of sig \<and> l_event l = evname_of sig]"
    and t: "safe dl t"
  with assms have "handler_ok dl (l_fn l)"
    by (auto simp: safe_def attached_inv_def configured_def)
  with t show "safe dl (call_listener (run isIP sig) l t)"
    by (intro safe_call_listener) (simp_all add: safe_run run_cancel)
qed

lemma safe_timeout_elapsed: "safe dl s \<Longrightarrow> safe dl (timeout_elapsed i s)"
proof -
  assume s: "safe dl s"
  show ?thesis
  proof (cases "i < length (timers s) \<and> timeout (timers s ! i) = Scheduled")
    case True
    then have "guarded (s\<lparr>timers := (timers s)[i := (\<lambda>t. t\<lparr>timeout := Ran, immediate := Some Scheduled\<rparr>) (timers s ! i)]\<rparr>)"
      using s by (intro guarded_timers_update) (simp_all add: safe_def pending_def)
    with s True show ?thesis
      using inv_timeout_elapsed [of s i]
      by (simp add: safe_def timeout_elapsed_def)
  next
    case False
    with s show ?thesis by (auto simp: timeout_elapsed_def)
  qed
qed

lemma safe_immediate_ran: "safe dl s \<Longrightarrow> safe dl (immediate_ran i s)"
proof -
  assume s: "safe dl s"
  let ?s1 = "s\<lparr>timers := (timers s)[i := (\<lambda>t. t\<lparr>immediate := Some Ran\<rparr>) (timers s ! i)]\<rparr>"
  show ?thesis
  proof (cases "i < length (timers s) \<and> immediate (timers s ! i) = Some Scheduled")
    case True
    then have "guarded ?s1"
      using s by (intro guarded_timers_update) (simp_all add: safe_def pending_def)
    moreover have "attached_inv ?s1"
      using s by (intro inv_timers_update) (simp_all add: safe_def)
    ultimately have "safe dl ?s1"
      using s by (simp add: safe_def)
    then have "safe dl (timeoutHandler (delay (timers s ! i)) (args (timers s ! i)) ?s1)"
      by (rule safe_timeoutHandler)
    with True show ?thesis
      by (simp add: immediate_ran_def)
  next
    case False
    with s show ?thesis by (auto simp: immediate_ran_def)
  qed
qed

lemma safe_timedOut:
  assumes "unattached s"
  shows "safe dl (snd (timedOut dl opts s))"
proof -
  have "guarded (snd (timedOut dl opts s))"
    using assms
    by (auto simp: timedOut_def unattached_def attach_response_def attach_socket_def
        attach_request_def request_setTimeout_def guarded_def guard_def)
  moreover have "delays (snd (timedOut dl opts s)) = dl"
    using assms
    by (simp add: timedOut_def unattached_def attach_response_def attach_socket_def
        attach_request_def request_setTimeout_def)
  ultimately show ?thesis
    using assms by (simp add: safe_def inv_timedOut)
qed

lemma safe_step: "safe dl s \<Longrightarrow> reentry s \<Longrightarrow> safe dl (step isIP ev s)"
  by (cases ev)
    (simp_all add: timedOut_def safe_cancelTimeouts safe_emit safe_timeout_elapsed
      safe_immediate_ran)

lemma safe_run_events: "safe dl s \<Longrightarrow> reentry s \<Longrightarrow> safe dl (run_events isIP evs s)"
  unfolding run_events_def
  by (induction evs arbitrary: s) (simp_all add: safe_step reentry_step)

lemma safe_reachable: "safe dl (run_events isIP (Attach dl opts # evs) (init others sp))"
proof -
  have "safe dl (run_events isIP evs (snd (timedOut dl opts (init others sp))))"
    by (intro safe_run_events safe_timedOut unattached_init reentry_timedOut)
  then show ?thesis
    by (simp add: run_events_def)
qed

subsection \<open>What timeoutHandler leaves behind\<close>

lemma effects_call_returned [simp]: "effects (call_returned s) = effects s"
  by (simp add: call_returned_def)

lemma effects_run_error [simp]: "effects (run_error error h s) = effects s"
  by (cases h) (simp_all add: errorListener_def)

lemma effects_emit_error [simp]: "effects (emit_with (run_error error) og e s) = effects s"
  unfolding emit_with_def
  by (rule fold_invariant [where P = "\<lambda>t. effects t = effects s"])
    (simp_all add: call_listener_def)

lemma effects_timeoutHandler [simp]:
  "effects (timeoutHandler d a s) = effects s @ [EmitError (TimeoutError d a), Abort]"
  by (simp add: timeoutHandler_def)


subsection \<open>A signal runs the cancel that listens to it\<close>

lemma fold_reaches:
  fixes f :: "'a \<Rightarrow> 'b \<Rightarrow> 'b" and xs :: "'a list"
  assumes "x \<in> set xs" and "P s"
    and "\<And>y t. y \<in> set xs \<Longrightarrow> P t \<Longrightarrow> P (f y t) \<or> Q (f y t)"
    and "\<And>y t. y \<in> set xs \<Longrightarrow> Q t \<Longrightarrow> Q (f y t)"
    and "\<And>t. P t \<Longrightarrow> Q (f x t)"
  shows "Q (fold f xs s)"
proof -
  have "(P t \<and> x \<in> set ys) \<or> Q t \<Longrightarrow> set ys \<subseteq> set xs \<Longrightarrow> Q (fold f ys t)"
    for ys :: "'a list" and t :: 'b
  proof (induction ys arbitrary: t)
    case Nil
    then show ?case by simp
  next
    case (Cons y ys)
    have y: "y \<in> set xs" and ys: "set ys \<subseteq> set xs"
      using Cons.prems(2) by simp_all
    have "(P (f y t) \<and> x \<in> set ys) \<or> Q (f y t)"
    proof (cases "Q t")
      case True
      then show ?thesis using assms(4) [OF y] by simp
    next
      case False
      with Cons.prems(1) have p: "P t" and x: "x = y \<or> x \<in> set ys" by auto
      show ?thesis
      proof (cases "x = y")
        case True
        with p assms(5) show ?thesis by simp
      next
        case False
        with x assms(3) [OF y p] show ?thesis by auto
      qed
    qed
    from Cons.IH [OF this ys] show ?case by simp
  qed
  from this [of s xs] assms(1,2) show ?thesis by simp
qed

lemma length_armed [simp]: "length (armed s) = length (timers s)"
  by (simp add: armed_def)

lemma timers_grow_run: "i < length (timers s) \<Longrightarrow> i < length (timers (run isIP sig h s))"
proof -
  have "length (armed s) \<le> length (armed (run isIP sig h s))"
    by (simp only: armed_run length_append le_add1)
  then show "i < length (timers s) \<Longrightarrow> ?thesis" by simp
qed

lemma signal_cancels:
  assumes "l \<in> set (listeners s)" and "l_fn l = CancelTimer i"
    and "l_origin l = origin_of sig" and "l_event l = evname_of sig"
    and "i < length (timers s)"
  shows "i < length (timers (emit isIP sig s)) \<and> \<not> pending (timers (emit isIP sig s) ! i)"
proof -
  let ?Q = "\<lambda>t. \<exists>T. frozen i T t"
  have "?Q (emit isIP sig s)"
    unfolding emit_def emit_with_def
  proof (rule fold_reaches [where P = "\<lambda>t. i < length (timers t)" and x = l])
    show "l \<in> set [l \<leftarrow> listeners s. l_origin l = origin_of sig \<and> l_event l = evname_of sig]"
      using assms by simp
    show "i < length (timers s)" by (rule assms)
  next
    fix y and t :: state
    assume "i < length (timers t)"
    then have "i < length (timers (call_listener (run isIP sig) y t))"
      by (simp add: call_listener_def timers_grow_run)
    then show "i < length (timers (call_listener (run isIP sig) y t))
        \<or> ?Q (call_listener (run isIP sig) y t)" ..
  next
    fix y and t :: state
    assume "?Q t"
    then show "?Q (call_listener (run isIP sig) y t)"
      by (auto simp: call_listener_def intro!: frozen_run frozen_prims(2))
  next
    fix t :: state
    assume "i < length (timers t)"
    then have "frozen i (clear (timers t ! i)) (call_listener (run isIP sig) l t)"
      by (simp add: call_listener_def assms(2) run_cancel frozen_def)
    then show "?Q (call_listener (run isIP sig) l t)" ..
  qed
  then show ?thesis
    by (auto simp: frozen_def)
qed

subsection \<open>The turn of the socket signal\<close>

lemma listeners_socket_parts:
  "set (listeners s) \<subseteq> set (listeners (socket_lookup isIP k s))"
  "set (listeners s) \<subseteq> set (listeners (socket_connect isIP k s))"
  "set (listeners s) \<subseteq> set (listeners (socket_secure k s))"
  "set (listeners s) \<subseteq> set (listeners (socket_send k s))"
  by (auto simp: socket_lookup_def socket_connect_def socket_secure_def socket_send_def
      timeConnect_def timeRequest_def)

lemma listeners_onSocket_mono: "set (listeners s) \<subseteq> set (listeners (onSocket isIP k s))"
proof -
  have "set (listeners s) \<subseteq> set (listeners (if connecting k
      then socket_secure k (socket_connect isIP k (socket_lookup isIP k s)) else s))"
    using listeners_socket_parts(1) [of s isIP k]
      listeners_socket_parts(2) [of "socket_lookup isIP k s" isIP k]
      listeners_socket_parts(3) [of "socket_connect isIP k (socket_lookup isIP k s)" k]
    by auto
  then show ?thesis
    unfolding onSocket_def using listeners_socket_parts(4) by blast
qed

lemma onSocket_after_lookup:
  "l \<in> set (listeners (socket_lookup isIP k s)) \<Longrightarrow> connecting k \<Longrightarrow>
     l \<in> set (listeners (onSocket isIP k s))"
  unfolding onSocket_def
  using listeners_socket_parts(2) [of "socket_lookup isIP k s" isIP k]
    listeners_socket_parts(3) [of "socket_connect isIP k (socket_lookup isIP k s)" k]
    listeners_socket_parts(4) [of "socket_secure k (socket_connect isIP k (socket_lookup isIP k s))" k]
  by auto

lemma onSocket_after_connect:
  "l \<in> set (listeners (socket_connect isIP k (socket_lookup isIP k s))) \<Longrightarrow> connecting k \<Longrightarrow>
     l \<in> set (listeners (onSocket isIP k s))"
  unfolding onSocket_def
  using listeners_socket_parts(3) [of "socket_connect isIP k (socket_lookup isIP k s)" k]
    listeners_socket_parts(4) [of "socket_secure k (socket_connect isIP k (socket_lookup isIP k s))" k]
  by auto

lemma onSocket_lookup_listener:
  assumes "connecting k" and "lookup (delays s) \<noteq> None" and "\<not> truthy (socketPath s)"
    and "isIP_of isIP (target (options s)) = 0" and "address k = None"
  shows "\<lparr>l_origin = OSocket (sid k), l_event = EvLookup,
           l_fn = CancelTimer (length (timers s)), l_once = True\<rparr>
         \<in> set (listeners (onSocket isIP k s))"
  using assms by (intro onSocket_after_lookup) (simp_all add: socket_lookup_def)

lemma onSocket_connect_listener:
  assumes "connecting k" and "connect (delays s) \<noteq> None"
    and "truthy (socketPath s) \<or> isIP_of isIP (target (options s)) \<noteq> 0"
  shows "\<lparr>l_origin = OSocket (sid k), l_event = EvConnect,
           l_fn = CancelTimer (length (timers s)), l_once = True\<rparr>
         \<in> set (listeners (onSocket isIP k s))"
proof -
  have "socket_lookup isIP k s = s"
    using assms(3) by (auto simp: socket_lookup_def)
  with assms show ?thesis
    by (intro onSocket_after_connect) (auto simp: socket_connect_def timeConnect_def)
qed

lemma onSocket_waits_for_lookup:
  assumes "connecting k" and "connect (delays s) \<noteq> None"
    and "\<not> truthy (socketPath s)" and "isIP_of isIP (target (options s)) = 0"
  shows "\<lparr>l_origin = OSocket (sid k), l_event = EvLookup, l_fn = OnLookup (sid k), l_once = True\<rparr>
         \<in> set (listeners (onSocket isIP k s))"
  using assms by (intro onSocket_after_connect) (simp_all add: socket_connect_def)

lemma socket_turn:
  assumes kept: "well_placed s" and inert: "inert_others s"
    and inst: "l \<in> set (listeners s)" "l_fn l = OnSocket" "l_origin l = ORequest" "l_event l = EvSocket"
    and X: "\<And>t. timers t = timers s \<Longrightarrow> same_env s t \<Longrightarrow> X \<in> set (listeners (onSocket isIP k t))"
    and other: "l_origin X \<noteq> ORequest"
  shows "X \<in> set (listeners (emit isIP (ReqSocket k) s))"
  unfolding emit_def emit_with_def origin_of.simps evname_of.simps
proof (rule fold_reaches [where P = "\<lambda>t. timers t = timers s \<and> same_env s t"
      and Q = "\<lambda>t. X \<in> set (listeners t)" and x = l])
  let ?snap = "[l \<leftarrow> listeners s. l_origin l = ORequest \<and> l_event l = EvSocket]"
  show "l \<in> set ?snap" using inst by simp
  show "timers s = timers s \<and> same_env s s" by simp
  have kind: "l_fn y = OnSocket \<or> (\<exists>n. l_fn y = Foreign n)" if "y \<in> set ?snap" for y
  proof -
    from that kept have "placed (l_fn y) ORequest EvSocket (l_once y)"
      by (auto simp: well_placed_def place_ok_def)
    moreover from that inert have "\<not> cancelling (l_fn y)"
      by (simp add: inert_others_def)
    ultimately show ?thesis by (cases "l_fn y") simp_all
  qed
  have before: "timers t1 = timers s \<and> same_env s t1"
    if "timers t = timers s \<and> same_env s t"
      and "t1 = (if l_once y then removeListener (l_origin y) (l_event y) (l_fn y) t else t)"
    for y t t1
    using that by (auto intro: same_env_trans)
  {
    fix y and t :: state
    assume y: "y \<in> set ?snap" and t: "timers t = timers s \<and> same_env s t"
    let ?t1 = "if l_once y then removeListener (l_origin y) (l_event y) (l_fn y) t else t"
    have t1: "timers ?t1 = timers s \<and> same_env s ?t1"
      using t by (rule before) simp
    show "(timers (call_listener (run isIP (ReqSocket k)) y t) = timers s
          \<and> same_env s (call_listener (run isIP (ReqSocket k)) y t))
        \<or> X \<in> set (listeners (call_listener (run isIP (ReqSocket k)) y t))"
    proof (cases "l_fn y = OnSocket")
      case False
      with kind [OF y] obtain n where "l_fn y = Foreign n" by auto
      with t1 show ?thesis
        by (simp add: call_listener_def)
    next
      case True
      with t1 X [of ?t1] show ?thesis
        by (simp add: call_listener_def)
    qed
  }
  {
    fix y and t :: state
    assume y: "y \<in> set ?snap" and t: "X \<in> set (listeners t)"
    let ?t1 = "if l_once y then removeListener (l_origin y) (l_event y) (l_fn y) t else t"
    have "\<not> is_listener (l_origin y) (l_event y) (l_fn y) X"
      using y other by (simp add: is_listener_def)
    with t have t1: "X \<in> set (listeners ?t1)"
      by (simp add: remove_last_keeps)
    show "X \<in> set (listeners (call_listener (run isIP (ReqSocket k)) y t))"
    proof (cases "l_fn y = OnSocket")
      case False
      with kind [OF y] obtain n where "l_fn y = Foreign n" by auto
      with t1 show ?thesis
        by (simp add: call_listener_def)
    next
      case True
      with t1 listeners_onSocket_mono [of ?t1 isIP k] show ?thesis
        by (auto simp: call_listener_def)
    qed
  }
  {
    fix t :: state
    assume t: "timers t = timers s \<and> same_env s t"
    let ?t1 = "if l_once l then removeListener (l_origin l) (l_event l) (l_fn l) t else t"
    have "timers ?t1 = timers s \<and> same_env s ?t1"
      using t by (rule before) simp
    with X [of ?t1] inst(2) show "X \<in> set (listeners (call_listener (run isIP (ReqSocket k)) l t))"
      by (simp add: call_listener_def)
  }
qed

subsection \<open>The turn of an error signal\<close>

lemma error_snapshot_kind:
  assumes "well_placed s" and "l \<in> set (listeners s)"
    and "l_origin l = ORequest" and "l_event l = EvError"
  shows "l_fn l = OnError \<and> \<not> l_once l \<or> foreign (l_fn l)"
proof -
  from assms have "placed (l_fn l) ORequest EvError (l_once l)"
    by (auto simp: well_placed_def place_ok_def)
  then show ?thesis by (cases "l_fn l") simp_all
qed

lemma run_error_quiescent:
  assumes "quiescent s" and "h = OnError \<or> foreign h"
  shows "run_error error h s = s"
proof -
  from assms(1) have "cancelTimeouts s = s"
    by (rule quiescent_cancelTimeouts)
  with assms(2) show ?thesis
    by (cases h) (simp_all add: errorListener_def call_returned_def)
qed

lemma quiescent_removeListener: "quiescent s \<Longrightarrow> quiescent (removeListener og e f s)"
  using set_remove_last [of "is_listener og e f" "listeners s"]
  by (auto simp: quiescent_def)

lemma error_turn_cancels:
  assumes inv: "attached_inv s" and kept: "well_placed s"
    and msg: "message error \<noteq> ''socket hang up''"
  shows "quiescent (emit isIP (ReqError error) s)"
  unfolding emit_def emit_with_def origin_of.simps evname_of.simps
proof (rule fold_reaches [where P = attached_inv and Q = quiescent and x = error_listener])
  let ?snap = "[l \<leftarrow> listeners s. l_origin l = ORequest \<and> l_event l = EvError]"
  show "error_listener \<in> set ?snap"
    using kept by (simp add: well_placed_def error_listener_def)
  show "attached_inv s" by (rule inv)
  have kind: "l_fn y = OnError \<and> \<not> l_once y \<or> foreign (l_fn y)" if "y \<in> set ?snap" for y
    using that kept by (intro error_snapshot_kind) auto
  {
    fix y and t :: state
    assume y: "y \<in> set ?snap" and t: "attached_inv t"
    from t
    have "attached_inv (call_listener (run isIP (ReqError error)) y t)"
      by (simp add: call_listener_def inv_removeListener inv_run_error)
    then show "attached_inv (call_listener (run isIP (ReqError error)) y t)
        \<or> quiescent (call_listener (run isIP (ReqError error)) y t)" ..
  }
  {
    fix y and t :: state
    assume y: "y \<in> set ?snap" and t: "quiescent t"
    let ?t1 = "if l_once y then removeListener (l_origin y) (l_event y) (l_fn y) t else t"
    from t have t1: "quiescent ?t1"
      by (simp add: quiescent_removeListener)
    from kind [OF y] have "l_fn y = OnError \<or> foreign (l_fn y)"
      by auto
    with t1 have "run_error error (l_fn y) ?t1 = ?t1"
      by (rule run_error_quiescent)
    with t1 show "quiescent (call_listener (run isIP (ReqError error)) y t)"
      by (simp add: call_listener_def)
  }
  {
    fix t :: state
    assume "attached_inv t"
    with msg show "quiescent (call_listener (run isIP (ReqError error)) error_listener t)"
      by (simp add: call_listener_def error_listener_def errorListener_def
          cancelTimeouts_quiescent)
  }
qed

lemma error_turn_ignores:
  assumes kept: "well_placed s" and inert: "inert_others s"
    and msg: "message error = ''socket hang up''"
  shows "own_part (emit isIP (ReqError error) s) = own_part s"
  unfolding emit_def emit_with_def origin_of.simps evname_of.simps
proof (rule fold_invariant [where P = "\<lambda>t. own_part t = own_part s"])
  show "own_part s = own_part s" by simp
next
  fix y and t :: state
  assume y: "y \<in> set [l \<leftarrow> listeners s. l_origin l = ORequest \<and> l_event l = EvError]"
    and t: "own_part t = own_part s"
  with kept have "l_fn y = OnError \<and> \<not> l_once y \<or> foreign (l_fn y)"
    by (intro error_snapshot_kind) auto
  moreover from y inert have "\<not> cancelling (l_fn y)"
    by (simp add: inert_others_def)
  ultimately have kind: "l_fn y = OnError \<and> \<not> l_once y \<or> (\<exists>n. l_fn y = Foreign n)"
    by (cases "l_fn y") simp_all
  have "own_part (removeListener og e f t) = own_part t" if "foreign f" for og e f
  proof -
    have "[l \<leftarrow> remove_last (is_listener og e f) (listeners t). \<not> foreign (l_fn l)]
        = [l \<leftarrow> listeners t. \<not> foreign (l_fn l)]"
      using that by (intro filter_remove_last) (simp add: is_listener_def)
    then show ?thesis
      by (simp add: own_part_def)
  qed
  from this [of "l_fn y"] kind t msg
  show "own_part (call_listener (run isIP (ReqError error)) y t) = own_part s"
    by (auto simp: call_listener_def errorListener_def)
qed

subsection \<open>Where connect and lookup timers come from\<close>

lemma listens_iff:
  "listens og e f s \<longleftrightarrow> (\<exists>l \<in> set (listeners s). l_origin l = og \<and> l_event l = e \<and> l_fn l = f)"
  by (auto simp: listens_def list_ex_iff is_listener_def)

lemma created_connect:
  assumes "(''connect'', d) \<in> set (created isIP sig h s)"
  shows "d = connect (delays s)
    \<and> ((\<exists>k. sig = ReqSocket k \<and> h = OnSocket \<and> connecting k \<and> connect (delays s) \<noteq> None
          \<and> (truthy (socketPath s) \<or> isIP_of isIP (target (options s)) \<noteq> 0))
       \<or> (\<exists>k k'. sig = SockLookup k None \<and> h = OnLookup k'))"
  using assms
  by (cases "(isIP, sig, h, s)" rule: created.cases)
    (auto simp: created_onSocket_def split: if_splits)

lemma created_lookup:
  assumes "(''lookup'', d) \<in> set (created isIP sig h s)"
  shows "d = lookup (delays s)
    \<and> (\<exists>k. sig = ReqSocket k \<and> h = OnSocket \<and> connecting k \<and> lookup (delays s) \<noteq> None
          \<and> \<not> truthy (socketPath s) \<and> isIP_of isIP (target (options s)) = 0
          \<and> address k = None)"
  using assms
  by (cases "(isIP, sig, h, s)" rule: created.cases)
    (auto simp: created_onSocket_def split: if_splits)

lemma created_by_signal_iff:
  "x \<in> set (created_by_signal isIP sig s) \<longleftrightarrow>
     (\<exists>l \<in> set (listeners s). l_origin l = origin_of sig \<and> l_event l = evname_of sig
        \<and> x \<in> set (created isIP sig (l_fn l) s))"
  by (auto simp: created_by_signal_def)

lemma created_by_connect:
  assumes "(''connect'', d) \<in> set (created_by isIP ev s)"
  shows "d = connect (delays s)
    \<and> ((\<exists>k. ev = Signal (ReqSocket k) \<and> listens ORequest EvSocket OnSocket s \<and> connecting k
          \<and> connect (delays s) \<noteq> None
          \<and> (truthy (socketPath s) \<or> isIP_of isIP (target (options s)) \<noteq> 0))
       \<or> (\<exists>k k'. ev = Signal (SockLookup k None) \<and> listens (OSocket k) EvLookup (OnLookup k') s))"
proof (cases ev)
  case (Signal sig)
  with assms obtain l where l: "l \<in> set (listeners s)" "l_origin l = origin_of sig"
      "l_event l = evname_of sig" "(''connect'', d) \<in> set (created isIP sig (l_fn l) s)"
    by (auto simp: created_by_signal_iff)
  from created_connect [OF l(4)] l(1-3) Signal show ?thesis
    by (auto simp: listens_iff)
next
  case (Attach dl opts)
  with assms show ?thesis by (simp split: if_splits)
qed (use assms in simp_all)

lemma created_by_lookup:
  assumes "(''lookup'', d) \<in> set (created_by isIP ev s)"
  shows "d = lookup (delays s)
    \<and> (\<exists>k. ev = Signal (ReqSocket k) \<and> listens ORequest EvSocket OnSocket s \<and> connecting k
          \<and> lookup (delays s) \<noteq> None \<and> \<not> truthy (socketPath s)
          \<and> isIP_of isIP (target (options s)) = 0 \<and> address k = None)"
proof (cases ev)
  case (Signal sig)
  with assms obtain l where l: "l \<in> set (listeners s)" "l_origin l = origin_of sig"
      "l_event l = evname_of sig" "(''lookup'', d) \<in> set (created isIP sig (l_fn l) s)"
    by (auto simp: created_by_signal_iff)
  from created_lookup [OF l(4)] l(1-3) Signal show ?thesis
    by (auto simp: listens_iff)
next
  case (Attach dl opts)
  with assms show ?thesis by (simp split: if_splits)
qed (use assms in simp_all)

lemma created_by_socket_signal:
  assumes "listens ORequest EvSocket OnSocket s"
  shows "set (created_onSocket isIP k s) \<subseteq> set (created_by isIP (Signal (ReqSocket k)) s)"
proof -
  from assms obtain l where "l \<in> set (listeners s)" "l_fn l = OnSocket"
      "l_origin l = ORequest" "l_event l = EvSocket"
    by (auto simp: listens_iff)
  then show ?thesis
    by (auto simp: created_by_signal_iff intro!: bexI [of _ l])
qed

lemma created_by_lookup_error: "created_by isIP (Signal (SockLookup k (Some error))) s = []"
proof -
  have "created isIP (SockLookup k (Some error)) h s = []" for h
    by (cases h) simp_all
  then show ?thesis
    by (simp add: created_by_signal_def)
qed

lemma created_by_lookup_success:
  assumes "listens (OSocket k) EvLookup (OnLookup k') s"
  shows "(''connect'', connect (delays s)) \<in> set (created_by isIP (Signal (SockLookup k None)) s)"
proof -
  from assms obtain l where "l \<in> set (listeners s)" "l_fn l = OnLookup k'"
      "l_origin l = OSocket k" "l_event l = EvLookup"
    by (auto simp: listens_iff)
  then show ?thesis
    by (auto simp: created_by_signal_iff intro!: bexI [of _ l])
qed

lemma socket_turn_listens:
  assumes "well_placed s" and "listens ORequest EvSocket OnSocket s"
    and inert: "inert_others s"
    and X: "\<And>t. timers t = timers s \<Longrightarrow> same_env s t \<Longrightarrow>
           \<lparr>l_origin = OSocket n, l_event = e, l_fn = f, l_once = True\<rparr>
             \<in> set (listeners (onSocket isIP k t))"
  shows "listens (OSocket n) e f (step isIP (Signal (ReqSocket k)) s)"
proof -
  from assms(2) obtain l where l: "l \<in> set (listeners s)" "l_fn l = OnSocket"
      "l_origin l = ORequest" "l_event l = EvSocket"
    by (auto simp: listens_iff)
  have "\<lparr>l_origin = OSocket n, l_event = e, l_fn = f, l_once = True\<rparr>
      \<in> set (listeners (emit isIP (ReqSocket k) s))"
    using assms(1) inert l X by (rule socket_turn) simp_all
  then show ?thesis
    by (force simp: listens_iff)
qed

subsection \<open>The captured arguments of a reached state\<close>

lemma same_env_step: "reentry s \<Longrightarrow> same_env s (step isIP ev s)"
  by (cases ev) (simp_all add: timedOut_def)

lemma same_env_run_events: "reentry s \<Longrightarrow> same_env s (run_events isIP evs s)"
proof (induction evs arbitrary: s)
  case Nil
  show ?case by (simp add: run_events_def)
next
  case (Cons ev evs)
  have "same_env s (step isIP ev s)"
    using Cons.prems by (rule same_env_step)
  moreover have "same_env (step isIP ev s) (run_events isIP evs (step isIP ev s))"
    using Cons.prems by (intro Cons.IH reentry_step)
  ultimately have "same_env s (run_events isIP evs (step isIP ev s))"
    by (rule same_env_trans)
  then show ?case
    by (simp add: run_events_def)
qed

lemma env_reachable:
  "delays (run_events isIP (Attach dl opts # evs) (init others sp)) = dl"
  "options (run_events isIP (Attach dl opts # evs) (init others sp)) = opts"
  "socketPath (run_events isIP (Attach dl opts # evs) (init others sp)) = sp"
proof -
  let ?s1 = "snd (timedOut dl opts (init others sp))"
  have 1: "delays ?s1 = dl \<and> options ?s1 = opts \<and> socketPath ?s1 = sp"
    by (simp add: timedOut_def init_def attach_response_def attach_socket_def
        attach_request_def request_setTimeout_def)
  have "same_env ?s1 (run_events isIP evs ?s1)"
    by (rule same_env_run_events) simp
  with 1 have "delays (run_events isIP evs ?s1) = dl \<and> options (run_events isIP evs ?s1) = opts
      \<and> socketPath (run_events isIP evs ?s1) = sp"
    by (simp add: same_env_def)
  then show "delays (run_events isIP (Attach dl opts # evs) (init others sp)) = dl"
    and "options (run_events isIP (Attach dl opts # evs) (init others sp)) = opts"
    and "socketPath (run_events isIP (Attach dl opts # evs) (init others sp)) = sp"
    by (simp_all add: run_events_def)
qed

lemma pending_lookup_guarded:
  assumes "guarded s" and "i < length (timers s)" and "pending (timers s ! i)"
    and "args (timers s ! i) = ''lookup''"
  shows "\<exists>n. listens (OSocket n) EvLookup (CancelTimer i) s"
proof -
  from assms obtain l where l: "l \<in> set (listeners s)" "l_fn l = CancelTimer i"
      "cancels_on ''lookup'' (l_origin l) (l_event l)"
    by (auto simp: guarded_def guard_def)
  from l(3) have "is_socket (l_origin l)" "l_event l = EvLookup"
    by (simp_all add: cancels_on_def)
  then obtain n where "l_origin l = OSocket n"
    by (cases "l_origin l") simp_all
  with l \<open>l_event l = EvLookup\<close> show ?thesis
    by (auto simp: listens_iff)
qed

lemma listening_cancel_disarms:
  assumes "listens (origin_of sig) (evname_of sig) (CancelTimer i) s" and "i < length (timers s)"
  shows "\<not> pending (timers (step isIP (Signal sig) s) ! i)"
proof -
  from assms(1) obtain l where "l \<in> set (listeners s)" "l_fn l = CancelTimer i"
      "l_origin l = origin_of sig" "l_event l = evname_of sig"
    by (auto simp: listens_iff)
  from signal_cancels [OF this assms(2)] show ?thesis by simp
qed

subsection \<open>The record of effects is not read by any listener of the error event\<close>








subsection \<open>After a breach\<close>




subsection \<open>The points of an emission\<close>

lemma during_0 [simp]: "during isIP sig 0 s = s"
  by (simp add: during_def)

lemma during_all: "length (snapshot sig s) \<le> n \<Longrightarrow> during isIP sig n s = emit isIP sig s"
  by (simp add: during_def emit_def emit_with_def snapshot_def)





subsection \<open>A listener of another consumer calls the returned function\<close>





subsection \<open>The emission of a breach\<close>




subsection \<open>What a call of the returned function does\<close>


subsection \<open>The life of one timer\<close>

lemma tracked_prims:
  "tracked i d a s \<Longrightarrow> tracked i d a (once og e f s)"
  "tracked i d a s \<Longrightarrow> tracked i d a (removeListener og e f s)"
  "tracked i d a s \<Longrightarrow> tracked i d a (snd (addTimeout d' a' s))"
  "tracked i d a s \<Longrightarrow> tracked i d a (s\<lparr>effects := x\<rparr>)"
  "tracked i d a s \<Longrightarrow> tracked i d a (abort s)"
  by (simp_all add: tracked_def nth_append)

lemma tracked_orderly: "tracked i d a s \<longleftrightarrow> i < length (timers s) \<and> orderly d a (timers s ! i)"
  by (simp add: tracked_def orderly_def)

lemma orderly_clear: "orderly d a T \<Longrightarrow> orderly d a (clear T)"
  by (auto simp: orderly_def clear_def clearTimeout_def clearImmediate_def)

lemma tracked_cancel: "tracked i d a s \<Longrightarrow> tracked i d a (cancel j s)"
  by (cases "i = j") (simp_all add: tracked_orderly orderly_clear)

lemma tracked_cancelTimeouts: "tracked i d a s \<Longrightarrow> tracked i d a (cancelTimeouts s)"
  by (simp add: tracked_orderly cancelTimeouts_timer orderly_clear)

lemma tracked_call_returned: "tracked i d a s \<Longrightarrow> tracked i d a (call_returned s)"
  by (simp add: call_returned_def tracked_cancelTimeouts)

lemma tracked_run_error: "tracked i d a s \<Longrightarrow> tracked i d a (run_error error h s)"
  by (cases h)
    (simp_all add: errorListener_def tracked_cancel tracked_cancelTimeouts tracked_call_returned)

lemma tracked_emit_with:
  assumes "tracked i d a s" and "\<And>h t. tracked i d a t \<Longrightarrow> tracked i d a (r h t)"
  shows "tracked i d a (emit_with r og e s)"
  unfolding emit_with_def
  by (rule fold_invariant [where P = "tracked i d a"])
    (simp_all add: assms call_listener_def tracked_prims)

lemma tracked_timeoutHandler: "tracked i d a s \<Longrightarrow> tracked i d a (timeoutHandler d' a' s)"
  unfolding timeoutHandler_def
  by (intro tracked_prims(5) tracked_emit_with tracked_prims(4) tracked_run_error)

lemma tracked_arm: "tracked i d a s \<Longrightarrow> tracked i d a (once_cancel og e (addTimeout d' a' s))"
  by (simp add: once_cancel_def tracked_prims)

lemma tracked_onSocket: "tracked i d a s \<Longrightarrow> tracked i d a (onSocket isIP k s)"
  by (simp add: onSocket_def socket_lookup_def socket_connect_def socket_secure_def
      socket_send_def timeConnect_def timeRequest_def tracked_arm tracked_prims)

lemma tracked_run: "tracked i d a s \<Longrightarrow> tracked i d a (run isIP sig h s)"
  by (cases "(isIP, sig, h, s)" rule: run.cases)
    (simp_all add: tracked_run_error tracked_cancel tracked_cancelTimeouts tracked_prims
      tracked_onSocket tracked_arm timeConnect_def timeRequest_def tracked_timeoutHandler
      tracked_call_returned)

lemma tracked_emit: "tracked i d a s \<Longrightarrow> tracked i d a (emit isIP sig s)"
  unfolding emit_def by (rule tracked_emit_with) (simp_all add: tracked_run)

lemma tracked_timeout_elapsed: "tracked i d a s \<Longrightarrow> tracked i d a (timeout_elapsed j s)"
  by (cases "i = j") (auto simp: tracked_def timeout_elapsed_def)

lemma tracked_immediate_ran: "tracked i d a s \<Longrightarrow> tracked i d a (immediate_ran j s)"
proof -
  assume f: "tracked i d a s"
  then have "tracked i d a (s\<lparr>timers := (timers s)[j := (timers s ! j)\<lparr>immediate := Some Ran\<rparr>]\<rparr>)"
    if "immediate (timers s ! j) = Some Scheduled"
    using that by (cases "i = j") (auto simp: tracked_def)
  with f show ?thesis
    by (simp add: immediate_ran_def tracked_timeoutHandler)
qed

lemma tracked_timedOut: "tracked i d a s \<Longrightarrow> tracked i d a (snd (timedOut dl opts s))"
  by (simp add: timedOut_def attach_response_def attach_socket_def attach_request_def
      request_setTimeout_def tracked_def nth_append)

lemma tracked_step: "tracked i d a s \<Longrightarrow> tracked i d a (step isIP ev s)"
  by (cases ev)
    (simp_all add: tracked_timedOut tracked_cancelTimeouts tracked_emit tracked_timeout_elapsed
      tracked_immediate_ran)

lemma tracked_run_events: "tracked i d a s \<Longrightarrow> tracked i d a (run_events isIP evs s)"
  unfolding run_events_def
  by (induction evs arbitrary: s) (simp_all add: tracked_step)

lemma tracked_addTimeout: "tracked (length (timers s)) d a (snd (addTimeout d a s))"
  by (simp add: tracked_def)




text \<open>
  Claim C2, as stated: the benign teardown is recognised by a structured condition on the
  error, not by its message. The listener of lines 86-90 compares the message with
  \<open>'socket hang up'\<close>: two errors with the same code and different messages are treated
  differently, the first leaves the request timer pending, the second cancels it.
\<close>

theorem benign_error_is_told_by_message:
  "code hang_up = code reset
     \<and> pending (timers (emit ip4 (ReqError hang_up)
         (snd (timedOut request_5ms no_options (init [] None)))) ! 0)
     \<and> \<not> pending (timers (emit ip4 (ReqError reset)
         (snd (timedOut request_5ms no_options (init [] None)))) ! 0)"
  by code_simp

text \<open>
  Claim C2, amended. In every state reached after an attach call, an error on the
  request's error signal whose message is not exactly \<open>socket hang up\<close> leaves no timer
  pending and, of the module's listeners, only the error listener; an error whose message
  is exactly \<open>socket hang up\<close> leaves the timers, the module's listeners, the cancelers and
  the emitted effects as they were. The message text is what tells the two apart.
\<close>

theorem error_signal_cancels_unless_hang_up:
  "let s = run_events isIP (Attach dl opts # evs) (init others sp);
       s' = step isIP (Signal (ReqError error)) s in
     (message error \<noteq> ''socket hang up'' \<longrightarrow>
        (\<forall>t \<in> set (timers s'). \<not> pending t)
        \<and> (\<forall>l \<in> set (listeners s'). l_fn l = OnError \<or> foreign (l_fn l)))
     \<and> (message error = ''socket hang up'' \<longrightarrow> own_part s' = own_part s)"
proof -
  define s where "s = run_events isIP (Attach dl opts # evs) (init others sp)"
  have a: "attached_inv s" and k: "well_placed s" and io: "inert_others s"
    unfolding s_def by (simp_all only: attached_reachable kept_reachable inert_reachable)
  have "quiescent (emit isIP (ReqError error) s)" if "message error \<noteq> ''socket hang up''"
    using a k that by (rule error_turn_cancels)
  moreover have "own_part (emit isIP (ReqError error) s) = own_part s"
    if "message error = ''socket hang up''"
    using k io that by (rule error_turn_ignores)
  ultimately show ?thesis
    unfolding Let_def s_def [symmetric] by (auto simp: quiescent_def)
qed

theorem error_signal_cancels_unless_hang_up_witness:
  "message reset \<noteq> ''socket hang up'' \<and> message hang_up = ''socket hang up''
     \<and> pending (timers (run_events ip4 [Attach request_5ms no_options] (init [] None)) ! 0)
     \<and> \<not> pending (timers (step ip4 (Signal (ReqError reset))
           (run_events ip4 [Attach request_5ms no_options] (init [] None))) ! 0)
     \<and> own_part (step ip4 (Signal (ReqError hang_up))
           (run_events ip4 [Attach request_5ms no_options] (init [] None)))
         = own_part (run_events ip4 [Attach request_5ms no_options] (init [] None))"
proof -
  let ?s = "run_events ip4 [Attach request_5ms no_options] (init [] None)"
  have 1: "message reset \<noteq> ''socket hang up''" and 2: "message hang_up = ''socket hang up''"
    by (simp_all add: reset_def hang_up_def)
  have 3: "pending (timers ?s ! 0)"
    by code_simp
  have 4: "timers (step ip4 (Signal (ReqError reset)) ?s) ! 0
      \<in> set (timers (step ip4 (Signal (ReqError reset)) ?s))"
    by code_simp
  from error_signal_cancels_unless_hang_up [of ip4 request_5ms no_options "[]" "[]" None reset]
    error_signal_cancels_unless_hang_up [of ip4 request_5ms no_options "[]" "[]" None hang_up]
    1 2 3 4
  show ?thesis
    unfolding Let_def by blast
qed

text \<open>
  Claim C3. Take any call of \<open>addTimeout\<close>, in any state, and any turns after it: they
  may arm newer timers, and may elapse, cancel or run this one. The timer keeps its index,
  its delay and its event name, and the closure returned for it is \<open>cancel\<close> of that
  index on whatever signal it is subscribed to. While its timeout is scheduled, the turn
  of the deadline does not call the callback: it emits nothing and only schedules the
  immediate of this timer. Once the immediate is scheduled and has not run, a call of
  \<open>cancel\<close> clears it, and it stays cleared whatever turns follow, so the callback never
  runs and the turn of the immediate changes nothing; if instead the immediate runs, the
  callback is called with the delay and the event name, and a call of \<open>cancel\<close> after
  that changes nothing. A call of \<open>cancel\<close> in any later state where the callback has
  fired changes nothing.
\<close>

theorem addTimeout_defers_and_cancel_prevents:
  "let i = fst (addTimeout d a s0);
       s = run_events isIP evs (snd (addTimeout d a s0));
       s2 = step isIP (TimeoutElapsed i) s;
       s3 = step isIP (ImmediateRan i) s in
     i = length (timers s0) \<and> i < length (timers s)
     \<and> delay (timers s ! i) = d \<and> args (timers s ! i) = a
     \<and> (\<forall>sig u. run isIP sig (CancelTimer i) u = cancel i u)
     \<and> (timeout (timers s ! i) = Scheduled \<longrightarrow>
          effects s2 = effects s \<and> listeners s2 = listeners s
          \<and> timers s2 = (timers s)
              [i := \<lparr>delay = d, args = a, timeout = Ran, immediate = Some Scheduled\<rparr>])
     \<and> (immediate (timers s ! i) = Some Scheduled \<longrightarrow>
          timers s ! i = \<lparr>delay = d, args = a, timeout = Ran, immediate = Some Scheduled\<rparr>
          \<and> timers (cancel i s) = (timers s)
              [i := \<lparr>delay = d, args = a, timeout = Ran, immediate = Some Cleared\<rparr>]
          \<and> (\<forall>evs'. timers (run_events isIP evs' (cancel i s)) ! i
                  = \<lparr>delay = d, args = a, timeout = Ran, immediate = Some Cleared\<rparr>
                \<and> step isIP (ImmediateRan i) (run_events isIP evs' (cancel i s))
                  = run_events isIP evs' (cancel i s))
          \<and> effects s3 = effects s @ [EmitError (TimeoutError d a), Abort]
          \<and> timers s3 ! i = \<lparr>delay = d, args = a, timeout = Ran, immediate = Some Ran\<rparr>
          \<and> cancel i s3 = s3)
     \<and> (immediate (timers s ! i) = Some Ran \<longrightarrow> cancel i s = s)"
proof -
  define i where "i = length (timers s0)"
  define s where "s = run_events isIP evs (snd (addTimeout d a s0))"
  define s2 where "s2 = timeout_elapsed i s"
  define s3 where "s3 = immediate_ran i s"
  let ?T1 = "\<lparr>delay = d, args = a, timeout = Ran, immediate = Some Scheduled\<rparr>"
  let ?T2 = "\<lparr>delay = d, args = a, timeout = Ran, immediate = Some Cleared\<rparr>"
  let ?T3 = "\<lparr>delay = d, args = a, timeout = Ran, immediate = Some Ran\<rparr>"
  have "tracked i d a s"
    unfolding s_def i_def by (intro tracked_run_events tracked_addTimeout)
  then have i: "i < length (timers s)" and da: "delay (timers s ! i) = d" "args (timers s ! i) = a"
    and order: "immediate (timers s ! i) = None \<or> timeout (timers s ! i) = Ran"
    by (simp_all add: tracked_def)
  have closure: "run isIP sig (CancelTimer i) u = cancel i u" for sig u
    by (rule run_cancel)
  have elapse: "effects s2 = effects s \<and> listeners s2 = listeners s \<and> timers s2 = (timers s)[i := ?T1]"
    if "timeout (timers s ! i) = Scheduled"
  proof -
    from da have "(timers s ! i)\<lparr>timeout := Ran, immediate := Some Scheduled\<rparr> = ?T1"
      by (cases "timers s ! i") simp
    with that i show ?thesis
      by (simp add: s2_def timeout_elapsed_def)
  qed
  have deferred: "timers s ! i = ?T1
      \<and> timers (cancel i s) = (timers s)[i := ?T2]
      \<and> (\<forall>evs'. timers (run_events isIP evs' (cancel i s)) ! i = ?T2
            \<and> step isIP (ImmediateRan i) (run_events isIP evs' (cancel i s))
              = run_events isIP evs' (cancel i s))
      \<and> effects s3 = effects s @ [EmitError (TimeoutError d a), Abort]
      \<and> timers s3 ! i = ?T3
      \<and> cancel i s3 = s3"
    if sch: "immediate (timers s ! i) = Some Scheduled"
  proof -
    from sch order have "timeout (timers s ! i) = Ran"
      by simp
    with sch da have T1: "timers s ! i = ?T1"
      by (cases "timers s ! i") simp
    then have c: "clear (timers s ! i) = ?T2"
      by (simp add: clear_def clearTimeout_def clearImmediate_def)
    then have tc: "timers (cancel i s) = (timers s)[i := ?T2]"
      by simp
    have "frozen i ?T2 (cancel i s)"
      using i by (simp add: frozen_def c pending_def)
    then have f: "frozen i ?T2 (run_events isIP evs' (cancel i s))" for evs'
      by (rule frozen_run_events)
    have after_cancel: "timers (run_events isIP evs' (cancel i s)) ! i = ?T2
        \<and> step isIP (ImmediateRan i) (run_events isIP evs' (cancel i s))
          = run_events isIP evs' (cancel i s)" for evs'
      using f [of evs'] by (simp add: frozen_def immediate_ran_def)
    let ?s' = "s\<lparr>timers := (timers s)[i := (timers s ! i)\<lparr>immediate := Some Ran\<rparr>]\<rparr>"
    have s3: "s3 = timeoutHandler d a ?s'"
      using i sch da by (simp add: s3_def immediate_ran_def)
    have "frozen i ?T3 ?s'"
      using i T1 by (simp add: frozen_def pending_def)
    then have "frozen i ?T3 s3"
      unfolding s3 by (rule frozen_timeoutHandler)
    then have n3: "i < length (timers s3)" "timers s3 ! i = ?T3"
      by (simp_all add: frozen_def)
    have "(timers s3)[i := ?T3] = timers s3"
      using list_update_id [of "timers s3" i] n3 by simp
    with n3 have c3: "cancel i s3 = s3"
      by (simp add: cancel_def clearTimeout_def clearImmediate_def)
    have e3: "effects s3 = effects s @ [EmitError (TimeoutError d a), Abort]"
      by (simp add: s3)
    from T1 tc after_cancel e3 n3(2) c3 show ?thesis
      by blast
  qed
  have fired: "cancel i s = s" if ran: "immediate (timers s ! i) = Some Ran"
  proof -
    from ran order have "timeout (timers s ! i) = Ran"
      by simp
    with ran have "clearImmediate (clearTimeout (timers s ! i)) = timers s ! i"
      by (simp add: clearTimeout_def clearImmediate_def)
    then show ?thesis
      using i by (simp add: cancel_def)
  qed
  have "i < length (timers s) \<and> delay (timers s ! i) = d \<and> args (timers s ! i) = a
      \<and> (\<forall>sig u. run isIP sig (CancelTimer i) u = cancel i u)
      \<and> (timeout (timers s ! i) = Scheduled \<longrightarrow>
           effects s2 = effects s \<and> listeners s2 = listeners s \<and> timers s2 = (timers s)[i := ?T1])
      \<and> (immediate (timers s ! i) = Some Scheduled \<longrightarrow>
           timers s ! i = ?T1
           \<and> timers (cancel i s) = (timers s)[i := ?T2]
           \<and> (\<forall>evs'. timers (run_events isIP evs' (cancel i s)) ! i = ?T2
                 \<and> step isIP (ImmediateRan i) (run_events isIP evs' (cancel i s))
                   = run_events isIP evs' (cancel i s))
           \<and> effects s3 = effects s @ [EmitError (TimeoutError d a), Abort]
           \<and> timers s3 ! i = ?T3
           \<and> cancel i s3 = s3)
      \<and> (immediate (timers s ! i) = Some Ran \<longrightarrow> cancel i s = s)"
    using i da closure elapse deferred fired by blast
  then show ?thesis
    unfolding Let_def s3_def s2_def s_def i_def by simp
qed

text \<open>The connect timer is armed on a request that a socket listener of the module
  supervises. Its deadline elapses, and the \<open>connect\<close> signal then makes the module arm the
  timer of the phase after it, so that the connect timer is no longer the newest. Its
  \<open>cancel\<close> still clears its immediate, and its callback's turn emits nothing. The last
  line is the same schedule with the module's own listeners from the attach call on.\<close>

theorem addTimeout_defers_and_cancel_prevents_witness:
  "length (timers (run_events ip4 [TimeoutElapsed 0, Signal (SockConnect 0)]
      (snd (addTimeout (Some 1) ''connect''
        (run_events ip4 [Attach connect_and_secure https_to_example,
           Signal (ReqSocket fresh_socket)] (init [] None)))))) = 2
   \<and> immediate (timers (run_events ip4 [TimeoutElapsed 0, Signal (SockConnect 0)]
      (snd (addTimeout (Some 1) ''connect''
        (run_events ip4 [Attach connect_and_secure https_to_example,
           Signal (ReqSocket fresh_socket)] (init [] None))))) ! 0) = Some Scheduled
   \<and> timers (cancel 0 (run_events ip4 [TimeoutElapsed 0, Signal (SockConnect 0)]
      (snd (addTimeout (Some 1) ''connect''
        (run_events ip4 [Attach connect_and_secure https_to_example,
           Signal (ReqSocket fresh_socket)] (init [] None)))))) ! 0
     = \<lparr>delay = Some 1, args = ''connect'', timeout = Ran, immediate = Some Cleared\<rparr>
   \<and> effects (run_events ip4 [ImmediateRan 0]
       (cancel 0 (run_events ip4 [TimeoutElapsed 0, Signal (SockConnect 0)]
         (snd (addTimeout (Some 1) ''connect''
           (run_events ip4 [Attach connect_and_secure https_to_example,
              Signal (ReqSocket fresh_socket)] (init [] None))))))) = []
   \<and> effects (run_events ip4 [Attach connect_and_secure https_to_example,
        Signal (ReqSocket fresh_socket), Signal (SockLookup 0 None), TimeoutElapsed 0,
        Signal (SockConnect 0), ImmediateRan 0] (init [] None)) = []"
proof -
  let ?a = "run_events ip4 [Attach connect_and_secure https_to_example,
      Signal (ReqSocket fresh_socket)] (init [] None)"
  let ?b = "run_events ip4 [TimeoutElapsed 0, Signal (SockConnect 0)]
      (snd (addTimeout (Some 1) ''connect'' ?a))"
  have 0: "fst (addTimeout (Some 1) ''connect'' ?a) = 0"
    by code_simp
  have 1: "length (timers ?b) = 2"
    by code_simp
  have 2: "immediate (timers ?b ! 0) = Some Scheduled"
    by code_simp
  have 3: "effects ?b = []"
    by code_simp
  have 4: "effects (run_events ip4 [Attach connect_and_secure https_to_example,
        Signal (ReqSocket fresh_socket), Signal (SockLookup 0 None), TimeoutElapsed 0,
        Signal (SockConnect 0), ImmediateRan 0] (init [] None)) = []"
    by code_simp
  note t = addTimeout_defers_and_cancel_prevents [of "Some 1" "''connect''" ?a ip4
      "[TimeoutElapsed 0, Signal (SockConnect 0)]", unfolded Let_def 0]
  from t 2 have 5: "timers (run_events ip4 [] (cancel 0 ?b)) ! 0
      = \<lparr>delay = Some 1, args = ''connect'', timeout = Ran, immediate = Some Cleared\<rparr>"
    and 6: "step ip4 (ImmediateRan 0) (run_events ip4 [] (cancel 0 ?b))
      = run_events ip4 [] (cancel 0 ?b)"
    by blast+
  from 5 have 7: "timers (cancel 0 ?b) ! 0
      = \<lparr>delay = Some 1, args = ''connect'', timeout = Ran, immediate = Some Cleared\<rparr>"
    by (simp add: run_events_def)
  from 6 have "run_events ip4 [ImmediateRan 0] (cancel 0 ?b) = cancel 0 ?b"
    by (simp add: run_events_def)
  with 3 have 8: "effects (run_events ip4 [ImmediateRan 0] (cancel 0 ?b)) = []"
    by simp
  from 1 2 7 8 4 show ?thesis
    by simp
qed

text \<open>
  Claim C5. The timers a turn creates are listed by \<open>created_by\<close>. While the module's
  listener of the request's \<open>socket\<close> event is installed and a connect delay is
  configured, a socket signal with a connecting socket creates the connect timer in that
  same turn if the request has a socket path or the target is a literal IP, and creates
  no connect timer otherwise. In any state, a turn creates a connect timer only if it is
  such a socket signal or a lookup signal carrying \<open>null\<close> on a socket the module's lookup
  listener is subscribed to; a lookup signal carrying an error creates no timer at all,
  and one carrying \<open>null\<close> creates the connect timer when that listener is subscribed. In
  every state reached after an attach call, the socket signal of a target that is neither
  subscribes that listener to the lookup event of the socket it was given.
\<close>

theorem connect_timer_arming:
  "armed (step isIP ev t) = armed t @ created_by isIP ev t
   \<and> (listens ORequest EvSocket OnSocket t \<and> connecting k \<and> connect (delays t) \<noteq> None \<longrightarrow>
        (if truthy (socketPath t) \<or> isIP_of isIP (target (options t)) \<noteq> 0
         then (''connect'', connect (delays t)) \<in> set (created_by isIP (Signal (ReqSocket k)) t)
         else \<forall>d. (''connect'', d) \<notin> set (created_by isIP (Signal (ReqSocket k)) t)))
   \<and> ((''connect'', d) \<in> set (created_by isIP ev t) \<longrightarrow>
        d = connect (delays t)
        \<and> ((\<exists>k. ev = Signal (ReqSocket k) \<and> listens ORequest EvSocket OnSocket t \<and> connecting k
              \<and> connect (delays t) \<noteq> None
              \<and> (truthy (socketPath t) \<or> isIP_of isIP (target (options t)) \<noteq> 0))
           \<or> (\<exists>n n'. ev = Signal (SockLookup n None)
                \<and> listens (OSocket n) EvLookup (OnLookup n') t)))
   \<and> created_by isIP (Signal (SockLookup n (Some error))) t = []
   \<and> (listens (OSocket n) EvLookup (OnLookup n') t \<longrightarrow>
        (''connect'', connect (delays t)) \<in> set (created_by isIP (Signal (SockLookup n None)) t))
   \<and> (let s = run_events isIP (Attach dl opts # evs) (init others sp) in
        listens ORequest EvSocket OnSocket s \<and> connecting k \<and> connect dl \<noteq> None
          \<and> \<not> truthy sp \<and> isIP_of isIP (target opts) = 0 \<longrightarrow>
        listens (OSocket (sid k)) EvLookup (OnLookup (sid k))
          (step isIP (Signal (ReqSocket k)) s))"
proof -
  have 1: "armed (step isIP ev t) = armed t @ created_by isIP ev t"
    by (rule armed_step)
  have 2: "(''connect'', connect (delays t)) \<in> set (created_by isIP (Signal (ReqSocket k)) t)"
    if "listens ORequest EvSocket OnSocket t" "connecting k" "connect (delays t) \<noteq> None"
      "truthy (socketPath t) \<or> isIP_of isIP (target (options t)) \<noteq> 0"
  proof -
    have "(''connect'', connect (delays t)) \<in> set (created_onSocket isIP k t)"
      using that by (auto simp: created_onSocket_def)
    with created_by_socket_signal [OF that(1)] show ?thesis by blast
  qed
  have 3: "(''connect'', d') \<notin> set (created_by isIP (Signal (ReqSocket k)) t)"
    if "\<not> (truthy (socketPath t) \<or> isIP_of isIP (target (options t)) \<noteq> 0)" for d'
    using that created_by_connect [of d' isIP "Signal (ReqSocket k)" t] by auto
  have 4: "(''connect'', d) \<in> set (created_by isIP ev t) \<longrightarrow>
        d = connect (delays t)
        \<and> ((\<exists>k. ev = Signal (ReqSocket k) \<and> listens ORequest EvSocket OnSocket t \<and> connecting k
              \<and> connect (delays t) \<noteq> None
              \<and> (truthy (socketPath t) \<or> isIP_of isIP (target (options t)) \<noteq> 0))
           \<or> (\<exists>n n'. ev = Signal (SockLookup n None)
                \<and> listens (OSocket n) EvLookup (OnLookup n') t))"
    using created_by_connect [of d isIP ev t] by blast
  have 5: "created_by isIP (Signal (SockLookup n (Some error))) t = []"
    by (rule created_by_lookup_error)
  have 6: "listens (OSocket n) EvLookup (OnLookup n') t \<longrightarrow>
        (''connect'', connect (delays t)) \<in> set (created_by isIP (Signal (SockLookup n None)) t)"
    using created_by_lookup_success by blast
  define s where "s = run_events isIP (Attach dl opts # evs) (init others sp)"
  have 7: "listens (OSocket (sid k)) EvLookup (OnLookup (sid k)) (step isIP (Signal (ReqSocket k)) s)"
    if "listens ORequest EvSocket OnSocket s" "connecting k" "connect dl \<noteq> None"
      "\<not> truthy sp" "isIP_of isIP (target opts) = 0"
  proof -
    have kept: "well_placed s"
      unfolding s_def by (rule kept_reachable)
    have inert: "inert_others s"
      unfolding s_def by (rule inert_reachable)
    have env: "delays s = dl" "options s = opts" "socketPath s = sp"
      unfolding s_def by (rule env_reachable)+
    show ?thesis
      using kept that(1) inert
    proof (rule socket_turn_listens)
      fix u
      assume "timers u = timers s" and "same_env s u"
      with env that show "\<lparr>l_origin = OSocket (sid k), l_event = EvLookup,
          l_fn = OnLookup (sid k), l_once = True\<rparr> \<in> set (listeners (onSocket isIP k u))"
        by (intro onSocket_waits_for_lookup) (simp_all add: same_env_def)
    qed
  qed
  from 1 2 3 4 5 6 7 show ?thesis
    unfolding Let_def s_def [symmetric] by (simp only: if_split) blast
qed

text \<open>A literal IP: the socket signal arms the connect timer. A host name: the socket
  signal arms nothing, and a failed lookup arms nothing either.\<close>

theorem connect_timer_arming_witness:
  "listens ORequest EvSocket OnSocket (run_events ip4 [Attach connect_1ms to_localhost] (init [] None))
   \<and> (''connect'', Some 1) \<in> set (armed (step ip4 (Signal (ReqSocket fresh_socket))
        (run_events ip4 [Attach connect_1ms to_localhost] (init [] None))))
   \<and> listens (OSocket 0) EvLookup (OnLookup 0) (step ip4 (Signal (ReqSocket fresh_socket))
        (run_events ip4 [Attach connect_1ms to_example] (init [] None)))
   \<and> created_by ip4 (Signal (SockLookup 0 (Some reset)))
        (step ip4 (Signal (ReqSocket fresh_socket))
          (run_events ip4 [Attach connect_1ms to_example] (init [] None))) = []"
proof -
  let ?ev = "Signal (ReqSocket fresh_socket)"
  let ?s = "run_events ip4 [Attach connect_1ms to_localhost] (init [] None)"
  let ?s' = "run_events ip4 [Attach connect_1ms to_example] (init [] None)"
  have h: "listens ORequest EvSocket OnSocket ?s \<and> connecting fresh_socket
      \<and> connect (delays ?s) \<noteq> None"
    and ip: "truthy (socketPath ?s) \<or> isIP_of ip4 (target (options ?s)) \<noteq> 0"
    and d: "connect (delays ?s) = Some 1"
    by code_simp+
  have h': "listens ORequest EvSocket OnSocket ?s' \<and> connecting fresh_socket
      \<and> connect connect_1ms \<noteq> None \<and> \<not> truthy None \<and> isIP_of ip4 (target to_example) = 0"
    and k: "sid fresh_socket = 0"
    by code_simp+
  note T = connect_timer_arming [where isIP = ip4 and ev = ?ev and t = ?s and k = fresh_socket
      and dl = connect_1ms and opts = to_example and evs = "[]" and others = "[]" and sp = None]
  from T have 1: "armed (step ip4 ?ev ?s) = armed ?s @ created_by ip4 ?ev ?s"
    by (rule conjunct1)
  from T [THEN conjunct2, THEN conjunct1, THEN mp, OF h] ip
  have "(''connect'', connect (delays ?s)) \<in> set (created_by ip4 ?ev ?s)"
    by (simp only: if_True)
  with 1 d have 2: "(''connect'', Some 1) \<in> set (armed (step ip4 ?ev ?s))"
    by (simp only: set_append Un_iff) simp
  from T [THEN conjunct2, THEN conjunct2, THEN conjunct2, THEN conjunct2, THEN conjunct2,
      unfolded Let_def, THEN mp, OF h'] k
  have 3: "listens (OSocket 0) EvLookup (OnLookup 0) (step ip4 ?ev ?s')"
    by (simp only:)
  from connect_timer_arming [where isIP = ip4 and t = "step ip4 ?ev ?s'" and n = 0
      and error = reset, THEN conjunct2, THEN conjunct2, THEN conjunct2, THEN conjunct1]
  have 4: "created_by ip4 (Signal (SockLookup 0 (Some reset))) (step ip4 ?ev ?s') = []" .
  from h 2 3 4 show ?thesis
    by (intro conjI) (elim conjE, assumption)+
qed

text \<open>
  Claim C6. While the module's listener of the request's \<open>socket\<close> event is installed
  and a lookup delay is configured, a socket signal with a connecting socket creates the
  lookup timer when the request has no socket path, the target is not a literal IP and
  the socket has no address yet; in any state, a turn creates a lookup timer only if it is
  such a socket signal under exactly these conditions. In every state reached after an
  attach call, the cancel of a pending lookup timer is subscribed to the lookup event of a
  socket, the one the socket signal carried, and the lookup signal of a socket the cancel
  is subscribed to leaves the timer not pending, whether it carries \<open>null\<close> or an error.
\<close>

theorem lookup_timer_arming_and_disarming:
  "armed (step isIP ev t) = armed t @ created_by isIP ev t
   \<and> (listens ORequest EvSocket OnSocket t \<and> connecting k \<and> lookup (delays t) \<noteq> None
        \<and> \<not> truthy (socketPath t) \<and> isIP_of isIP (target (options t)) = 0
        \<and> address k = None \<longrightarrow>
        (''lookup'', lookup (delays t)) \<in> set (created_by isIP (Signal (ReqSocket k)) t))
   \<and> ((''lookup'', d) \<in> set (created_by isIP ev t) \<longrightarrow>
        d = lookup (delays t)
        \<and> (\<exists>k. ev = Signal (ReqSocket k) \<and> listens ORequest EvSocket OnSocket t
              \<and> connecting k \<and> lookup (delays t) \<noteq> None \<and> \<not> truthy (socketPath t)
              \<and> isIP_of isIP (target (options t)) = 0 \<and> address k = None))
   \<and> (listens (OSocket n) EvLookup (CancelTimer i) t \<and> i < length (timers t) \<longrightarrow>
        \<not> pending (timers (step isIP (Signal (SockLookup n r)) t) ! i))
   \<and> (let s = run_events isIP (Attach dl opts # evs) (init others sp) in
        (i < length (timers s) \<and> pending (timers s ! i) \<and> args (timers s ! i) = ''lookup'' \<longrightarrow>
           (\<exists>n. listens (OSocket n) EvLookup (CancelTimer i) s))
        \<and> (listens ORequest EvSocket OnSocket s \<and> connecting k \<and> lookup dl \<noteq> None
             \<and> \<not> truthy sp \<and> isIP_of isIP (target opts) = 0 \<and> address k = None \<longrightarrow>
           listens (OSocket (sid k)) EvLookup (CancelTimer (length (timers s)))
             (step isIP (Signal (ReqSocket k)) s)))"
proof -
  have 1: "armed (step isIP ev t) = armed t @ created_by isIP ev t"
    by (rule armed_step)
  have 2: "(''lookup'', lookup (delays t)) \<in> set (created_by isIP (Signal (ReqSocket k)) t)"
    if "listens ORequest EvSocket OnSocket t" "connecting k" "lookup (delays t) \<noteq> None"
      "\<not> truthy (socketPath t)" "isIP_of isIP (target (options t)) = 0" "address k = None"
  proof -
    have "(''lookup'', lookup (delays t)) \<in> set (created_onSocket isIP k t)"
      using that by (auto simp: created_onSocket_def)
    with created_by_socket_signal [OF that(1)] show ?thesis by blast
  qed
  have 3: "(''lookup'', d) \<in> set (created_by isIP ev t) \<longrightarrow>
        d = lookup (delays t)
        \<and> (\<exists>k. ev = Signal (ReqSocket k) \<and> listens ORequest EvSocket OnSocket t
              \<and> connecting k \<and> lookup (delays t) \<noteq> None \<and> \<not> truthy (socketPath t)
              \<and> isIP_of isIP (target (options t)) = 0 \<and> address k = None)"
    using created_by_lookup [of d isIP ev t] by blast
  have 4: "\<not> pending (timers (step isIP (Signal (SockLookup n r)) t) ! i)"
    if "listens (OSocket n) EvLookup (CancelTimer i) t" "i < length (timers t)"
    using that by (intro listening_cancel_disarms) simp_all
  define s where "s = run_events isIP (Attach dl opts # evs) (init others sp)"
  have safe: "safe dl s" and kept: "well_placed s" and inert: "inert_others s"
    unfolding s_def by (rule safe_reachable, rule kept_reachable, rule inert_reachable)
  have env: "delays s = dl" "options s = opts" "socketPath s = sp"
    unfolding s_def by (rule env_reachable)+
  have 5: "\<exists>n. listens (OSocket n) EvLookup (CancelTimer i) s"
    if "i < length (timers s)" "pending (timers s ! i)" "args (timers s ! i) = ''lookup''"
    using safe that by (intro pending_lookup_guarded) (simp_all add: safe_def)
  have 6: "listens (OSocket (sid k)) EvLookup (CancelTimer (length (timers s)))
        (step isIP (Signal (ReqSocket k)) s)"
    if "listens ORequest EvSocket OnSocket s" "connecting k" "lookup dl \<noteq> None"
      "\<not> truthy sp" "isIP_of isIP (target opts) = 0" "address k = None"
    using kept that(1) inert
  proof (rule socket_turn_listens)
    fix u
    assume u: "timers u = timers s" "same_env s u"
    with env that have "\<lparr>l_origin = OSocket (sid k), l_event = EvLookup,
        l_fn = CancelTimer (length (timers u)), l_once = True\<rparr> \<in> set (listeners (onSocket isIP k u))"
      by (intro onSocket_lookup_listener) (simp_all add: same_env_def)
    with u show "\<lparr>l_origin = OSocket (sid k), l_event = EvLookup,
        l_fn = CancelTimer (length (timers s)), l_once = True\<rparr> \<in> set (listeners (onSocket isIP k u))"
      by simp
  qed
  from 1 2 3 4 5 6 show ?thesis
    unfolding Let_def s_def [symmetric] by blast
qed

text \<open>A host name and a lookup delay: the socket signal arms the lookup timer, and a
  lookup that fails disarms it.\<close>

theorem lookup_timer_arming_and_disarming_witness:
  "armed (step ip4 (Signal (ReqSocket fresh_socket))
      (run_events ip4 [Attach lookup_3ms to_example] (init [] None))) = [(''lookup'', Some 3)]
   \<and> pending (timers (run_events ip4 [Attach lookup_3ms to_example, Signal (ReqSocket fresh_socket)]
        (init [] None)) ! 0)
   \<and> \<not> pending (timers (step ip4 (Signal (SockLookup 0 (Some reset)))
        (run_events ip4 [Attach lookup_3ms to_example, Signal (ReqSocket fresh_socket)]
          (init [] None))) ! 0)"
proof -
  let ?ev = "Signal (ReqSocket fresh_socket)"
  let ?a = "run_events ip4 [Attach lookup_3ms to_example] (init [] None)"
  let ?b = "run_events ip4 [Attach lookup_3ms to_example, Signal (ReqSocket fresh_socket)] (init [] None)"
  have a: "armed ?a @ created_by ip4 ?ev ?a = [(''lookup'', Some 3)]"
    by code_simp
  have h: "listens (OSocket 0) EvLookup (CancelTimer 0) ?b \<and> 0 < length (timers ?b)"
    and p: "pending (timers ?b ! 0)"
    by code_simp+
  from lookup_timer_arming_and_disarming [where isIP = ip4 and ev = ?ev and t = ?a]
  have "armed (step ip4 ?ev ?a) = armed ?a @ created_by ip4 ?ev ?a"
    by (rule conjunct1)
  with a have 1: "armed (step ip4 ?ev ?a) = [(''lookup'', Some 3)]"
    by (simp only:)
  from lookup_timer_arming_and_disarming [where isIP = ip4 and t = ?b and n = 0 and i = 0
      and r = "Some reset", THEN conjunct2, THEN conjunct2, THEN conjunct2, THEN conjunct1,
      THEN mp, OF h]
  have 2: "\<not> pending (timers (step ip4 (Signal (SockLookup 0 (Some reset))) ?b) ! 0)" .
  from 1 p 2 show ?thesis
    by (intro conjI)
qed

text \<open>
  Claim C7. In every state reached after an attach call with the delays \<open>dl\<close>, whatever
  turns followed, every timer the module created carries an event name whose delay is
  present in \<open>dl\<close>, and carries that delay; and the handler of the native idle timeout is
  subscribed only if the socket delay is present.
\<close>

theorem no_timer_for_absent_phase:
  "let s = run_events isIP (Attach dl opts # evs) (init others sp) in
     (\<forall>t \<in> set (timers s). delay_for dl (args t) \<noteq> None \<and> delay t = delay_for dl (args t))
     \<and> (\<forall>a. delay_for dl a = None \<longrightarrow> (\<forall>d. (a, d) \<notin> set (armed s)))
     \<and> (socket dl = None \<longrightarrow> (\<forall>l \<in> set (listeners s). l_fn l \<noteq> SocketTimeoutHandler))"
proof -
  define s where "s = run_events isIP (Attach dl opts # evs) (init others sp)"
  have "attached_inv s" and d: "delays s = dl"
    unfolding s_def by (rule attached_reachable, rule env_reachable)
  then have c: "configured s"
    by (simp add: attached_inv_def)
  have 1: "\<forall>t \<in> set (timers s). delay_for dl (args t) \<noteq> None \<and> delay t = delay_for dl (args t)"
    using c d by (auto simp: configured_def)
  then have 2: "\<forall>a. delay_for dl a = None \<longrightarrow> (\<forall>d. (a, d) \<notin> set (armed s))"
    by (auto simp: armed_def)
  have 3: "socket dl = None \<longrightarrow> (\<forall>l \<in> set (listeners s). l_fn l \<noteq> SocketTimeoutHandler)"
  proof (intro impI ballI notI)
    fix l
    assume "socket dl = None" "l \<in> set (listeners s)" "l_fn l = SocketTimeoutHandler"
    with c d show False
      by (auto simp: configured_def)
  qed
  from 1 2 3 show ?thesis
    unfolding Let_def s_def [symmetric] by blast
qed

text \<open>Every delay but connect's, a literal IP over TLS, and a lifecycle up to the
  upload: no connect timer was created, four others were.\<close>

theorem no_timer_for_absent_phase_witness:
  "delay_for all_but_connect ''connect'' = None
   \<and> (''connect'', Some 1) \<notin> set (armed (run_events ip4
        [Attach all_but_connect secure_to_localhost, Signal (ReqSocket fresh_socket),
         Signal (SockLookup 0 None), Signal (SockConnect 0), Signal ReqUploadComplete]
        (init [] None)))
   \<and> length (armed (run_events ip4
        [Attach all_but_connect secure_to_localhost, Signal (ReqSocket fresh_socket),
         Signal (SockLookup 0 None), Signal (SockConnect 0), Signal ReqUploadComplete]
        (init [] None))) = 4"
proof -
  let ?evs = "[Signal (ReqSocket fresh_socket), Signal (SockLookup 0 None),
    Signal (SockConnect 0), Signal ReqUploadComplete]"
  have 1: "delay_for all_but_connect ''connect'' = None"
    by code_simp
  have 2: "length (armed (run_events ip4 (Attach all_but_connect secure_to_localhost # ?evs)
      (init [] None))) = 4"
    by code_simp
  from no_timer_for_absent_phase [of ip4 all_but_connect secure_to_localhost ?evs "[]" None,
      unfolded Let_def, THEN conjunct2, THEN conjunct1, THEN spec, THEN mp, OF 1, THEN spec]
  have "(''connect'', Some 1) \<notin> set (armed (run_events ip4
      (Attach all_but_connect secure_to_localhost # ?evs) (init [] None)))" .
  with 1 2 show ?thesis
    by (intro conjI)
qed



text \<open>
  Claim C9. When the socket delay is present, the attach call subscribes
  \<open>socketTimeoutHandler\<close> to the request's \<open>timeout\<close> event and pushes one canceler for
  it. In any state that canceler removes at most one listener, a subscription of
  \<open>socketTimeoutHandler\<close> to that event, and leaves every other listener, of any emitter
  and event, where it was; it changes nothing else. The function the attach call
  returned leaves the listeners of others as they were.
\<close>

theorem socket_canceler_removes_only_its_handler:
  "(socket dl \<noteq> None \<longrightarrow>
      RemoveSocketTimeout \<in> set (cancelers (snd (timedOut dl opts (init others sp))))
      \<and> listens ORequest EvTimeout SocketTimeoutHandler (snd (timedOut dl opts (init others sp))))
   \<and> [l \<leftarrow> listeners (run_canceler RemoveSocketTimeout t).
         \<not> is_listener ORequest EvTimeout SocketTimeoutHandler l]
       = [l \<leftarrow> listeners t. \<not> is_listener ORequest EvTimeout SocketTimeoutHandler l]
   \<and> length (listeners t) \<le> Suc (length (listeners (run_canceler RemoveSocketTimeout t)))
   \<and> run_canceler RemoveSocketTimeout t
       = t\<lparr>listeners := listeners (run_canceler RemoveSocketTimeout t)\<rparr>
   \<and> (let s = run_events isIP (Attach dl opts # evs) (init others sp) in
        [l \<leftarrow> listeners (invoke CancelAll s). foreign (l_fn l)]
          = [l \<leftarrow> listeners s. foreign (l_fn l)])"
proof -
  have 1: "RemoveSocketTimeout \<in> set (cancelers (snd (timedOut dl opts (init others sp))))
      \<and> listens ORequest EvTimeout SocketTimeoutHandler (snd (timedOut dl opts (init others sp)))"
    if "socket dl \<noteq> None"
    using that
    by (auto simp: timedOut_def init_def attach_response_def attach_socket_def
        attach_request_def request_setTimeout_def listens_iff)
  have 2: "[l \<leftarrow> listeners (run_canceler RemoveSocketTimeout t).
        \<not> is_listener ORequest EvTimeout SocketTimeoutHandler l]
      = [l \<leftarrow> listeners t. \<not> is_listener ORequest EvTimeout SocketTimeoutHandler l]"
    by (simp add: filter_remove_last)
  have "length xs \<le> Suc (length (remove_last P xs))" for P and xs :: "listener list"
    by (induction xs) auto
  then have 3: "length (listeners t) \<le> Suc (length (listeners (run_canceler RemoveSocketTimeout t)))"
    by simp
  have 4: "run_canceler RemoveSocketTimeout t
      = t\<lparr>listeners := listeners (run_canceler RemoveSocketTimeout t)\<rparr>"
    by (simp add: removeListener_def)
  define s where "s = run_events isIP (Attach dl opts # evs) (init others sp)"
  have a: "attached_inv s" and k: "well_placed s"
    unfolding s_def by (simp_all only: attached_reachable kept_reachable)
  have "\<forall>h \<in> set (handlers s). \<not> foreign (snd (snd h))"
    using k by (auto simp: well_placed_def releasable_def)
  with a have 5: "[l \<leftarrow> listeners (invoke CancelAll s). foreign (l_fn l)]
      = [l \<leftarrow> listeners s. foreign (l_fn l)]"
    by (simp add: cancelTimeouts_foreign)
  from 1 2 3 4 5 show ?thesis
    unfolding Let_def s_def [symmetric] by blast
qed

text \<open>Another consumer listens to the request's \<open>timeout\<close> event: after the returned
  function has run, its listener is the one left.\<close>

theorem socket_canceler_removes_only_its_handler_witness:
  "listenerCount ORequest EvTimeout
      (run_events ip4 [Attach socket_7ms no_options] (init [a_listener_of_timeout] None)) = 2
   \<and> [l \<leftarrow> listeners (invoke CancelAll
          (run_events ip4 [Attach socket_7ms no_options] (init [a_listener_of_timeout] None))).
        foreign (l_fn l)]
     = [other_listener a_listener_of_timeout]
   \<and> listenerCount ORequest EvTimeout (invoke CancelAll
        (run_events ip4 [Attach socket_7ms no_options] (init [a_listener_of_timeout] None))) = 1"
proof -
  let ?b = "run_events ip4 [Attach socket_7ms no_options] (init [a_listener_of_timeout] None)"
  have 1: "listenerCount ORequest EvTimeout ?b = 2"
    and 2: "[l \<leftarrow> listeners ?b. foreign (l_fn l)] = [other_listener a_listener_of_timeout]"
    and 3: "listenerCount ORequest EvTimeout (invoke CancelAll ?b) = 1"
    by code_simp+
  from socket_canceler_removes_only_its_handler [where isIP = ip4 and dl = socket_7ms
      and opts = no_options and evs = "[]" and others = "[a_listener_of_timeout]" and sp = None,
      THEN conjunct2, THEN conjunct2, THEN conjunct2, THEN conjunct2, unfolded Let_def]
  have "[l \<leftarrow> listeners (invoke CancelAll ?b). foreign (l_fn l)]
      = [l \<leftarrow> listeners ?b. foreign (l_fn l)]" .
  with 2 have "[l \<leftarrow> listeners (invoke CancelAll ?b). foreign (l_fn l)]
      = [other_listener a_listener_of_timeout]"
    by (simp only:)
  with 1 3 show ?thesis
    by (intro conjI)
qed

text \<open>
  Claim C4. A second call of the exported function on a request that already carries the
  marker installs nothing: the state, and with it every listener and every timer, is
  what the first call left, and the function it returns is \<open>noop\<close>, whose call changes
  nothing.
\<close>

theorem second_attach_is_noop:
  "timedOut dl' opts' (snd (timedOut dl opts s)) = (Noop, snd (timedOut dl opts s))
     \<and> invoke (fst (timedOut dl' opts' (snd (timedOut dl opts s)))) t = t"
proof -
  have "reentry (snd (timedOut dl opts s))" by simp
  then have "timedOut dl' opts' (snd (timedOut dl opts s)) = (Noop, snd (timedOut dl opts s))"
    by (simp add: timedOut_def [of dl' opts'])
  then show ?thesis by simp
qed

text \<open>The test "double calling timedOut has no effect": one listener of \<open>socket\<close>.\<close>

theorem second_attach_is_noop_witness:
  "listenerCount ORequest EvSocket
     (snd (timedOut connect_1ms to_localhost
       (snd (timedOut connect_1ms to_localhost (init [] None))))) = 1"
proof -
  have "listenerCount ORequest EvSocket
      (snd (timedOut connect_1ms to_localhost (init [] None))) = 1"
    by code_simp
  with second_attach_is_noop [of connect_1ms to_localhost connect_1ms to_localhost "init [] None"]
  show ?thesis by simp
qed

text \<open>
  Claim C10. The marker is never cleared. After a first call of the exported function,
  whatever turns follow (signals, timers, calls of the returned function, further calls
  of the exported function), the marker is set and a call of the exported function
  returns \<open>noop\<close> and leaves the state as it is.
\<close>

theorem marker_never_cleared:
  "reentry (run_events isIP evs (snd (timedOut dl opts s)))
     \<and> timedOut dl' opts' (run_events isIP evs (snd (timedOut dl opts s)))
         = (Noop, run_events isIP evs (snd (timedOut dl opts s)))"
proof -
  have "reentry (run_events isIP evs (snd (timedOut dl opts s)))"
    by (simp add: reentry_run_events)
  then show ?thesis
    by (simp add: timedOut_def [of dl' opts'])
qed

text \<open>After the returned function has detached everything, a new call arms no timer.\<close>

theorem marker_never_cleared_witness:
  "timers (snd (timedOut connect_1ms to_localhost
     (run_events ip4 [CallCancel] (snd (timedOut no_delays no_options (init [] None)))))) = []"
proof -
  have "timers (run_events ip4 [CallCancel] (snd (timedOut no_delays no_options (init [] None)))) = []"
    by code_simp
  with marker_never_cleared [of ip4 "[CallCancel]" no_delays no_options "init [] None"
      connect_1ms to_localhost]
  show ?thesis by simp
qed

end
